theory Spec2Isabelle
  imports Main "HOL-Library.AList" "HOL-Library.Word"
begin

unbundle bit_operations_syntax

section \<open>Data model of the extended linear scan allocator (vasm-xls.cpp)\<close>

text \<open>
  Positions are C++ \<open>unsigned\<close> values.  They are modelled as natural numbers;
  where the source computes with them (\<open>pos - 1\<close>, \<open>pos + 1\<close>, \<open>pos += 2\<close>) the
  32-bit wrap-around is written out with \<open>u32\<close>.  \<open>kMaxPos\<close> is \<open>UINT_MAX\<close>.
\<close>

definition u32 :: "nat \<Rightarrow> nat" where
  "u32 n = n mod 4294967296"

definition kMaxPos :: nat where
  "kMaxPos = 4294967295"

definition kInvalidSpillSlot :: int where
  "kInvalidSpillSlot = - 1"

datatype Constraint = Any | CopySrc | Gpr | Simd | Sf

text \<open>
  Modelled from the spec: the register types are declared in vasm-reg.h, which is not
  part of the sources.  A physical register belongs to the general purpose, the SIMD or
  the flags class, or is the invalid register; a Vreg is a physical register exposed
  as a Vreg, or a virtual one.  An invalid Vreg (\<open>Vreg{}\<close>) is \<open>None\<close> of
  \<open>Vreg option\<close>.
\<close>

datatype PhysReg = GpReg nat | SimdReg nat | RegSF nat | InvalidReg

datatype Vreg = Phys PhysReg | Virt nat

fun isPhys :: "Vreg \<Rightarrow> bool" where
  "isPhys (Phys r) = True"
| "isPhys (Virt n) = False"

text \<open>The typed register operands, and the overloads of \<open>constraint\<close> and \<open>is_wide\<close>.\<close>

datatype RegClass =
  Vreg_t | Vreg64_t | Vreg32_t | Vreg16_t | Vreg8_t | VregDbl_t | Vreg128_t | VregSF_t



record Use =
  u_kind :: Constraint
  u_pos :: nat
  u_hint :: "Vreg option"

record LiveRange =
  lr_start :: nat
  lr_end :: nat

definition contains :: "LiveRange \<Rightarrow> nat \<Rightarrow> bool" where
  "contains r p = (p \<ge> lr_start r \<and> p < lr_end r)"

definition intersects :: "LiveRange \<Rightarrow> LiveRange \<Rightarrow> bool" where
  "intersects this r = (lr_start r < lr_end this \<and> lr_start this < lr_end r)"


text \<open>
  An \<open>Interval*\<close> is an index into the store of intervals (a list; \<open>jit::make\<close>
  appends a cell).  The field \<open>constant\<close> is \<open>is_constant\<close> (the name is reserved),
  and \<open>def_pos\<close> is not initialised by the constructors, which is
  \<open>None\<close> here.
\<close>

type_synonym ivl_ptr = nat

record Interval =
  parent :: "ivl_ptr option"
  next_ivl :: "ivl_ptr option"
  ranges :: "LiveRange list"
  uses :: "Use list"
  vreg :: Vreg
  def_pos :: "nat option"
  slot :: int
  wide :: bool
  reg :: PhysReg
  is_constant :: bool
  val :: "nat option"

definition make_Interval :: "Vreg \<Rightarrow> Interval" where
  "make_Interval r =
     \<lparr> parent = None, next_ivl = None, ranges = [], uses = [], vreg = r, def_pos = None,
       slot = kInvalidSpillSlot, wide = False, reg = InvalidReg, is_constant = False,
       val = None \<rparr>"

definition make_child :: "ivl_ptr \<Rightarrow> Interval \<Rightarrow> Interval" where
  "make_child p par =
     \<lparr> parent = Some p, next_ivl = None, ranges = [], uses = [], vreg = vreg par,
       def_pos = None, slot = kInvalidSpillSlot, wide = wide par, reg = InvalidReg,
       is_constant = is_constant par, val = val par \<rparr>"

text \<open>
  \<open>front()\<close> and \<open>back()\<close> of an empty vector are undefined in C++; every interval
  of the allocator has a range (asserted by \<open>buildIntervals\<close> and by \<open>split\<close>), and the
  theorems about \<open>start\<close> and \<open>end'\<close> assume it.
\<close>

definition start :: "Interval \<Rightarrow> nat" where
  "start ivl = lr_start (hd (ranges ivl))"

definition end' :: "Interval \<Rightarrow> nat" where
  "end' ivl = lr_end (last (ranges ivl))"

definition fixed :: "Interval \<Rightarrow> bool" where
  "fixed ivl = isPhys (vreg ivl)"

definition leader :: "ivl_ptr \<Rightarrow> Interval \<Rightarrow> ivl_ptr" where
  "leader this ivl = (case parent ivl of Some p \<Rightarrow> p | None \<Rightarrow> this)"

definition spilled :: "Interval \<Rightarrow> bool" where
  "spilled ivl = (reg ivl = InvalidReg \<and> slot ivl \<ge> 0)"

subsection \<open>Binary searches\<close>

text \<open>
  The loops return early with the index found (\<open>Found\<close>), or leave the loop with
  \<open>lo\<close> (\<open>NotFound\<close>), after which the source asserts that \<open>lo\<close> is the size or
  its element lies above \<open>pos\<close>.  A failed assertion, like every read outside a vector,
  is \<open>None\<close>.
\<close>

datatype search = Found nat | NotFound nat

function findRange_loop :: "LiveRange list \<Rightarrow> nat \<Rightarrow> nat \<Rightarrow> nat \<Rightarrow> search" where
  "findRange_loop rs p lo hi =
     (if lo < hi then
        (if p < lr_start (rs ! ((lo + hi) div 2)) then findRange_loop rs p lo ((lo + hi) div 2)
         else if lr_end (rs ! ((lo + hi) div 2)) \<le> p
           then findRange_loop rs p ((lo + hi) div 2 + 1) hi
         else Found ((lo + hi) div 2))
      else NotFound lo)"
  by pat_completeness auto
termination
  by (relation "measure (\<lambda>(rs, p, lo, hi). hi - lo)") auto

declare findRange_loop.simps [simp del]

definition findRange :: "Interval \<Rightarrow> nat \<Rightarrow> nat option" where
  "findRange ivl p =
     (case findRange_loop (ranges ivl) p 0 (length (ranges ivl)) of
        Found mid \<Rightarrow> Some mid
      | NotFound lo \<Rightarrow>
          if lo = length (ranges ivl) \<or> p < lr_start (ranges ivl ! lo) then Some lo else None)"

function findUse_loop :: "Use list \<Rightarrow> nat \<Rightarrow> nat \<Rightarrow> nat \<Rightarrow> search" where
  "findUse_loop us p lo hi =
     (if lo < hi then
        (if p < u_pos (us ! ((lo + hi) div 2)) then findUse_loop us p lo ((lo + hi) div 2)
         else if u_pos (us ! ((lo + hi) div 2)) < p
           then findUse_loop us p ((lo + hi) div 2 + 1) hi
         else Found ((lo + hi) div 2))
      else NotFound lo)"
  by pat_completeness auto
termination
  by (relation "measure (\<lambda>(us, p, lo, hi). hi - lo)") auto

declare findUse_loop.simps [simp del]

definition findUse :: "Interval \<Rightarrow> nat \<Rightarrow> nat option" where
  "findUse ivl p =
     (case findUse_loop (uses ivl) p 0 (length (uses ivl)) of
        Found mid \<Rightarrow> Some mid
      | NotFound lo \<Rightarrow>
          if lo = length (uses ivl) \<or> p < u_pos (uses ivl ! lo) then Some lo else None)"

subsection \<open>Queries\<close>

definition covers :: "Interval \<Rightarrow> nat \<Rightarrow> bool option" where
  "covers ivl p =
     (if p < start ivl \<or> p \<ge> end' ivl then Some False
      else case findRange ivl p of
             None \<Rightarrow> None
           | Some i \<Rightarrow> Some (i \<noteq> length (ranges ivl) \<and> contains (ranges ivl ! i) p))"

definition usedAt :: "Interval \<Rightarrow> nat \<Rightarrow> bool option" where
  "usedAt ivl p =
     (if p < start ivl \<or> p > end' ivl then Some False
      else case findUse ivl p of
             None \<Rightarrow> None
           | Some i \<Rightarrow> Some (i \<noteq> length (uses ivl) \<and> p = u_pos (uses ivl ! i)))"

text \<open>
  \<open>childAt\<close> walks the chain through \<open>next\<close>.  The outer \<open>None\<close> is a failed
  assertion or a dangling pointer (or a walk that never ends); \<open>Some None\<close> is the
  \<open>nullptr\<close> result.
\<close>

partial_function (option) childAt_loop ::
  "Interval list \<Rightarrow> nat \<Rightarrow> ivl_ptr option \<Rightarrow> ivl_ptr option option" where
  "childAt_loop h p cur =
     (case cur of
        None \<Rightarrow> Some None
      | Some i \<Rightarrow>
          if i < length h then
            (if p < start (h ! i) then Some None
             else case usedAt (h ! i) p of
                    None \<Rightarrow> None
                  | Some b \<Rightarrow> if b then Some (Some i) else childAt_loop h p (next_ivl (h ! i)))
          else None)"

definition childAt :: "Interval list \<Rightarrow> ivl_ptr \<Rightarrow> nat \<Rightarrow> ivl_ptr option option" where
  "childAt h this p =
     (if this < length h \<and> parent (h ! this) = None then childAt_loop h p (Some this)
      else None)"

fun nextIntersect_loop :: "LiveRange list \<Rightarrow> LiveRange list \<Rightarrow> nat option" where
  "nextIntersect_loop (r1 # rs1) (r2 # rs2) =
     (if lr_start r1 < lr_start r2 then
        (if lr_start r2 < lr_end r1 then Some (lr_start r2)
         else if rs1 = [] then Some kMaxPos
         else nextIntersect_loop rs1 (r2 # rs2))
      else
        (if lr_start r1 < lr_end r2 then Some (lr_start r1)
         else if rs2 = [] then Some kMaxPos
         else nextIntersect_loop (r1 # rs1) rs2))"
| "nextIntersect_loop [] rs2 = None"
| "nextIntersect_loop rs1 [] = None"

text \<open>
  \<open>r1\<close> and \<open>r2\<close> are iterators: the remaining ranges of \<open>current\<close> and of
  \<open>other\<close>.  Dereferencing an end iterator is \<open>None\<close>.
\<close>

definition nextIntersect :: "Interval \<Rightarrow> Interval \<Rightarrow> nat option" where
  "nextIntersect current other =
     (if fixed current then None
      else if parent current = None \<and> parent other = None \<and> \<not> fixed other then Some kMaxPos
      else if end' current \<le> start other then Some kMaxPos
      else case findRange other (start current) of
             None \<Rightarrow> None
           | Some k \<Rightarrow> nextIntersect_loop (ranges current) (drop k (ranges other)))"

fun firstUseAfter_loop :: "Use list \<Rightarrow> nat \<Rightarrow> nat" where
  "firstUseAfter_loop [] p = kMaxPos"
| "firstUseAfter_loop (u # us) p =
     (if u_kind u = CopySrc then firstUseAfter_loop us p
      else if u_pos u \<ge> p then u_pos u
      else firstUseAfter_loop us p)"

definition firstUseAfter :: "Interval \<Rightarrow> nat \<Rightarrow> nat" where
  "firstUseAfter ivl p = firstUseAfter_loop (uses ivl) p"

fun lastUseBefore_loop :: "Use list \<Rightarrow> nat \<Rightarrow> nat \<Rightarrow> nat" where
  "lastUseBefore_loop [] p prev = prev"
| "lastUseBefore_loop (u # us) p prev =
     (if u_kind u = CopySrc then lastUseBefore_loop us p prev
      else if u_pos u > p then prev
      else lastUseBefore_loop us p (u_pos u))"

definition lastUseBefore :: "Interval \<Rightarrow> nat \<Rightarrow> nat" where
  "lastUseBefore ivl p = lastUseBefore_loop (uses ivl) p 0"

fun firstUse_loop :: "Use list \<Rightarrow> nat" where
  "firstUse_loop [] = kMaxPos"
| "firstUse_loop (u # us) = (if u_kind u \<noteq> CopySrc then u_pos u else firstUse_loop us)"

definition firstUse :: "Interval \<Rightarrow> nat" where
  "firstUse ivl = firstUse_loop (uses ivl)"

subsection \<open>Splitting\<close>

text \<open>
  \<open>split\<close> allocates the child, links it after \<open>this\<close>, moves the ranges from
  \<open>r1\<close> on (cutting the range that straddles \<open>pos\<close>) and then the uses from \<open>u1\<close> on.
  The two \<open>while\<close> loops advance \<open>u1\<close> over a prefix of the uses, which is a
  \<open>takeWhile\<close>.  The result is the new store and the child's pointer.
\<close>

definition split ::
  "Interval list \<Rightarrow> ivl_ptr \<Rightarrow> nat \<Rightarrow> bool \<Rightarrow> (Interval list \<times> ivl_ptr) option" where
  "split h this p keep_uses =
     (if \<not> this < length h then None
      else let ivl = h ! this in
      if \<not> (p > start ivl \<and> p < end' ivl) then None
      else let ldr = leader this ivl in
      if \<not> ldr < length h then None
      else let child0 = (make_child ldr (h ! ldr)) \<lparr> next_ivl := next_ivl ivl \<rparr>;
               child_ptr = length h in
      case findRange ivl p of
        None \<Rightarrow> None
      | Some k \<Rightarrow>
          if \<not> k < length (ranges ivl) then None
          else let r1 = ranges ivl ! k;
                   cut = (p > lr_start r1);
                   rs = (if cut then list_update (ranges ivl) k (r1 \<lparr> lr_end := p \<rparr>)
                         else ranges ivl);
                   k1 = (if cut then k + 1 else k);
                   child_ranges =
                     (if cut then [\<lparr> lr_start = p, lr_end = lr_end r1 \<rparr>] else []) @ drop k1 rs;
                   this1 = ivl \<lparr> next_ivl := Some child_ptr, ranges := take k1 rs \<rparr>;
                   child1 = child0 \<lparr> ranges := child_ranges \<rparr>
               in
               (case findUse this1 (end' this1) of
                  None \<Rightarrow> None
                | Some j \<Rightarrow>
                    let stay = (if keep_uses then (\<lambda>u. u_pos u \<le> end' this1)
                                else (\<lambda>u. u_pos u < start child1));
                        j1 = j + length (takeWhile stay (drop j (uses this1)));
                        child2 = child1 \<lparr> uses := drop j1 (uses this1) \<rparr>;
                        this2 = this1 \<lparr> uses := take j1 (uses this1) \<rparr>
                    in Some (list_update h this this2 @ [child2], child_ptr)))"

section \<open>The unit, the context and the interface to the instruction set\<close>

text \<open>
  Modelled from the spec: the instruction set (vasm-instr.h), its operand visitors
  (vasm-visit.h), the side-effect tables (\<open>getEffects\<close>) and \<open>succs\<close> are not part
  of the sources.  An instruction is its opcode with the operands this file reads
  (\<open>addqi_\<close>, \<open>subqi_\<close>, \<open>lea_\<close>, the copies and \<open>phidef_\<close>), and its position
  \<open>pos\<close>.  What the visitors report for an instruction is a parameter: the record
  \<open>VIR\<close> holds the functions of the external interface, and every theorem holds for
  all of them.
\<close>

record Vptr =
  base :: "Vreg option"
  index :: "Vreg option"
  disp :: "32 word"

datatype Vop =
    push Vreg
  | pop Vreg
  | addqi (addqi_s0: "32 word") (addqi_s1: Vreg) (addqi_d: Vreg)
  | subqi (subqi_s0: "32 word") (subqi_s1: Vreg) (subqi_d: Vreg)
  | lea (lea_s: Vptr) (lea_d: Vreg)
  | copy Vreg Vreg
  | copy2 Vreg Vreg Vreg Vreg
  | copyargs nat nat
  | phijmp nat
  | phijcc nat
  | phidef nat
  | nop
  | other nat

record Vinstr =
  op :: Vop
  pos :: nat

record Vblock =
  code :: "Vinstr list"

record Vunit =
  unit_blocks :: "Vblock list"
  tuples :: "Vreg list list"
  constToReg :: "(nat \<times> Vreg) list"
  entry :: nat

text \<open>
  The callbacks of \<open>visitOperands\<close>, in the order of the visit.  A typed register
  operand is its class and its Vreg; a tuple is its index into \<open>unit.tuples\<close>.
\<close>

datatype Operand =
    O_imm
  | O_use RegClass Vreg
  | O_useHint RegClass Vreg "Vreg option"
  | O_def RegClass Vreg
  | O_defHint RegClass Vreg "Vreg option"
  | O_across RegClass Vreg
  | O_use_tuple nat
  | O_def_tuple nat
  | O_useHint_tuple nat nat
  | O_defHint_tuple nat nat
  | O_use_ptr Vptr
  | O_use_callargs nat

record Abi =
  gpUnreserved :: "PhysReg set"
  simdUnreserved :: "PhysReg set"
  sf :: "PhysReg set"

record Effects =
  implicit_uses :: "PhysReg list"
  implicit_across :: "PhysReg list"
  implicit_defs :: "PhysReg list"

record VIR =
  visitOperands :: "Vinstr \<Rightarrow> Operand list"
  visitUses :: "Vunit \<Rightarrow> Vinstr \<Rightarrow> Vreg list"
  visitDefs :: "Vunit \<Rightarrow> Vinstr \<Rightarrow> Vreg list"
  getEffects :: "Abi \<Rightarrow> Vinstr \<Rightarrow> Effects"
  succs :: "Vblock \<Rightarrow> nat list"

text \<open>
  A \<open>LiveSet\<close> is a bitset over Vreg numbers: the list of the Vregs whose bit is
  set, compared as a set.  A bitset of size zero (\<open>empty()\<close>, the state of
  \<open>livein[b]\<close> before the liveness analysis writes it) is \<open>None\<close>.
\<close>

record VxlsContext =
  abi :: Abi
  sp :: PhysReg
  tmp :: PhysReg
  blocks :: "nat list"
  block_ranges :: "LiveRange list"
  spill_offsets :: "int list"
  livein :: "Vreg list option list"

function blockFor_loop :: "VxlsContext \<Rightarrow> nat \<Rightarrow> nat \<Rightarrow> nat \<Rightarrow> nat option" where
  "blockFor_loop ctx p lo hi =
     (if lo < hi then
        (if (lo + hi) div 2 < length (blocks ctx)
            \<and> blocks ctx ! ((lo + hi) div 2) < length (block_ranges ctx) then
           (if p < lr_start (block_ranges ctx ! (blocks ctx ! ((lo + hi) div 2)))
              then blockFor_loop ctx p lo ((lo + hi) div 2)
            else if p \<ge> lr_end (block_ranges ctx ! (blocks ctx ! ((lo + hi) div 2)))
              then blockFor_loop ctx p ((lo + hi) div 2 + 1) hi
            else Some (blocks ctx ! ((lo + hi) div 2)))
         else None)
      else None)"
  by pat_completeness auto
termination
  by (relation "measure (\<lambda>(ctx, p, lo, hi). hi - lo)") auto

declare blockFor_loop.simps [simp del]

text \<open>\<open>always_assert(false)\<close> when no block encloses \<open>pos\<close> is \<open>None\<close>.\<close>

definition blockFor :: "VxlsContext \<Rightarrow> nat \<Rightarrow> nat option" where
  "blockFor ctx p = blockFor_loop ctx p 0 (length (blocks ctx))"

definition nearestSplitBefore :: "VxlsContext \<Rightarrow> nat \<Rightarrow> nat option" where
  "nearestSplitBefore ctx p =
     (case blockFor ctx p of
        None \<Rightarrow> None
      | Some b \<Rightarrow>
          if p = lr_start (block_ranges ctx ! b) then Some p
          else Some (u32 (p + 4294967296 - 1) OR 1))"

subsection \<open>Stack pointer effect\<close>

text \<open>
  The debug build: the \<open>assertx\<close> of the \<open>addqi\<close>, \<open>subqi\<close> and \<open>lea\<close> cases and the
  one under \<open>if (debug)\<close> of the default case abort, which is \<open>None\<close>.  The immediate
  (\<open>Immed::l()\<close>), the displacement of a \<open>Vptr\<close> and the result are 32-bit signed
  integers: the operands are 32-bit words, the result is the signed value of one, and
  the negation of \<open>subqi\<close> is computed in 32 bits, where the negation of
  \<open>INT_MIN\<close> (a signed overflow) is \<open>INT_MIN\<close>.
\<close>

definition spEffect :: "VIR \<Rightarrow> Vunit \<Rightarrow> Vinstr \<Rightarrow> PhysReg \<Rightarrow> int option" where
  "spEffect vir unit inst sp_reg =
     (case op inst of
        push s \<Rightarrow> Some (- 8)
      | pop d \<Rightarrow> Some 8
      | addqi s0 s1 d \<Rightarrow>
          if d = Phys sp_reg then (if s1 = Phys sp_reg then Some (sint s0) else None) else Some 0
      | subqi s0 s1 d \<Rightarrow>
          if d = Phys sp_reg then (if s1 = Phys sp_reg then Some (sint (- s0)) else None)
          else Some 0
      | lea s d \<Rightarrow>
          if d = Phys sp_reg
          then (if base s = Some d \<and> index s = None then Some (sint (disp s)) else None)
          else Some 0
      | _ \<Rightarrow>
          if list_all (\<lambda>r. r \<noteq> Phys sp_reg) (visitDefs vir unit inst) then Some 0 else None)"

section \<open>Well-formedness predicates and example inputs\<close>

text \<open>Use positions are monotonically non-decreasing.\<close>

definition uses_sorted :: "Use list \<Rightarrow> bool" where
  "uses_sorted us = sorted (map u_pos us)"

text \<open>
  The blocks of the context in their sorted order: every label has a range, and the
  ranges follow each other.  This is what \<open>blockFor\<close>'s binary search relies on.
\<close>

definition blocks_sorted :: "VxlsContext \<Rightarrow> bool" where
  "blocks_sorted cx =
     (list_all (\<lambda>b. b < length (block_ranges cx)
                     \<and> lr_start (block_ranges cx ! b) \<le> lr_end (block_ranges cx ! b)) (blocks cx)
      \<and> sorted_wrt (\<lambda>a b. lr_end (block_ranges cx ! a) \<le> lr_start (block_ranges cx ! b))
            (blocks cx))"

text \<open>The opcodes \<open>spEffect\<close> has a case for.\<close>

definition tracked_op :: "Vop \<Rightarrow> bool" where
  "tracked_op v = (case v of push s \<Rightarrow> True | pop d \<Rightarrow> True | addqi a b c \<Rightarrow> True
      | subqi a b c \<Rightarrow> True | lea a b \<Rightarrow> True | _ \<Rightarrow> False)"

text \<open>
  Example inputs.  \<open>ex_ctx\<close> lays out three blocks in the order 0, 2, 1;
  \<open>ex_heap\<close> is a chain of a root with a use at its end and one child.
\<close>

definition ex_vir :: VIR where
  "ex_vir = \<lparr> visitOperands = (\<lambda>i. []), visitUses = (\<lambda>u i. []), visitDefs = (\<lambda>u i. []),
      getEffects = (\<lambda>a i. \<lparr> implicit_uses = [], implicit_across = [], implicit_defs = [] \<rparr>),
      succs = (\<lambda>b. []) \<rparr>"

definition ex_unit :: Vunit where
  "ex_unit = \<lparr> unit_blocks = [], tuples = [], constToReg = [], entry = 0 \<rparr>"

definition ex_ctx :: VxlsContext where
  "ex_ctx = \<lparr> abi = \<lparr> gpUnreserved = {}, simdUnreserved = {}, sf = {} \<rparr>, sp = GpReg 4, tmp = SimdReg 15,
       blocks = [0, 2, 1],
       block_ranges = [\<lparr> lr_start = 0, lr_end = 4 \<rparr>, \<lparr> lr_start = 8, lr_end = 12 \<rparr>, \<lparr> lr_start = 4, lr_end = 8 \<rparr>],
       spill_offsets = [0, 0, 0],
       livein = [Some [], Some [Virt 0], Some [Virt 0]] \<rparr>"

definition ex_root :: Interval where
  "ex_root = (make_Interval (Virt 0))
     \<lparr> next_ivl := Some 1, ranges := [\<lparr> lr_start = 2, lr_end = 6 \<rparr>],
       uses := [\<lparr> u_kind = Any, u_pos = 2, u_hint = None \<rparr>, \<lparr> u_kind = Gpr, u_pos = 6, u_hint = None \<rparr>],
       def_pos := Some 2, reg := GpReg 0 \<rparr>"

definition ex_child :: Interval where
  "ex_child = (make_child 0 ex_root)
     \<lparr> ranges := [\<lparr> lr_start = 6, lr_end = 10 \<rparr>],
       uses := [\<lparr> u_kind = Gpr, u_pos = 8, u_hint = None \<rparr>], reg := GpReg 1 \<rparr>"

definition ex_heap :: "Interval list" where
  "ex_heap = [ex_root, ex_child]"

text \<open>
  Ranges are sorted ascending, each non-empty, and each range starts strictly after the
  previous range's end.  \<open>covered rs p\<close>: some range of \<open>rs\<close> contains \<open>p\<close>.
\<close>

fun separated :: "LiveRange list \<Rightarrow> bool" where
  "separated [] = True"
| "separated [r] = (lr_start r < lr_end r)"
| "separated (r # r' # rs) = (lr_start r < lr_end r \<and> lr_end r < lr_start r' \<and> separated (r' # rs))"

definition covered :: "LiveRange list \<Rightarrow> nat \<Rightarrow> bool" where
  "covered rs p = list_ex (\<lambda>r. contains r p) rs"

text \<open>
  Example intervals: \<open>ex_a\<close> and \<open>ex_b\<close> are unsplit and virtual, \<open>ex_fixed\<close>
  is the interval of a physical register with the ranges of \<open>ex_b\<close>.
\<close>

definition ex_a :: Interval where
  "ex_a = (make_Interval (Virt 1))
     \<lparr> ranges := [\<lparr> lr_start = 4, lr_end = 10 \<rparr>],
       uses := [\<lparr> u_kind = Any, u_pos = 4, u_hint = None \<rparr>], def_pos := Some 4 \<rparr>"

definition ex_b :: Interval where
  "ex_b = (make_Interval (Virt 2))
     \<lparr> ranges := [\<lparr> lr_start = 2, lr_end = 3 \<rparr>, \<lparr> lr_start = 6, lr_end = 8 \<rparr>],
       uses := [\<lparr> u_kind = Any, u_pos = 2, u_hint = None \<rparr>], def_pos := Some 2 \<rparr>"

definition ex_fixed :: Interval where
  "ex_fixed = (make_Interval (Phys (GpReg 0)))
     \<lparr> ranges := [\<lparr> lr_start = 2, lr_end = 3 \<rparr>, \<lparr> lr_start = 6, lr_end = 8 \<rparr>],
       reg := GpReg 0 \<rparr>"

text \<open>
  The parts of a range list below and from a position, as the specification of
  \<open>split\<close> words them: the ranges that end at or before \<open>p\<close> with the part below
  \<open>p\<close> of a range that straddles it, and the ranges that start at or after \<open>p\<close> with
  the part from \<open>p\<close> of a range that straddles it.
\<close>

definition ranges_before :: "nat \<Rightarrow> LiveRange list \<Rightarrow> LiveRange list" where
  "ranges_before p rs =
     concat (map (\<lambda>r. if lr_end r \<le> p then [r]
                      else if lr_start r < p then [r \<lparr> lr_end := p \<rparr>] else []) rs)"

definition ranges_from :: "nat \<Rightarrow> LiveRange list \<Rightarrow> LiveRange list" where
  "ranges_from p rs =
     concat (map (\<lambda>r. if p \<le> lr_start r then [r]
                      else if p < lr_end r then [r \<lparr> lr_start := p \<rparr>] else []) rs)"

text \<open>
  \<open>ex_hole\<close> has a use at the end of its first range, before a hole; \<open>ex_dup\<close> has
  two uses at position 6.
\<close>

definition ex_hole :: Interval where
  "ex_hole = (make_Interval (Virt 0))
     \<lparr> ranges := [\<lparr> lr_start = 0, lr_end = 6 \<rparr>, \<lparr> lr_start = 8, lr_end = 10 \<rparr>],
       uses := [\<lparr> u_kind = Gpr, u_pos = 0, u_hint = None \<rparr>,
                \<lparr> u_kind = Gpr, u_pos = 6, u_hint = None \<rparr>,
                \<lparr> u_kind = Gpr, u_pos = 10, u_hint = None \<rparr>],
       def_pos := Some 0 \<rparr>"

definition ex_dup :: Interval where
  "ex_dup = (make_Interval (Virt 0))
     \<lparr> ranges := [\<lparr> lr_start = 2, lr_end = 10 \<rparr>],
       uses := [\<lparr> u_kind = Gpr, u_pos = 2, u_hint = None \<rparr>,
                \<lparr> u_kind = Gpr, u_pos = 6, u_hint = None \<rparr>,
                \<lparr> u_kind = Any, u_pos = 6, u_hint = None \<rparr>,
                \<lparr> u_kind = Gpr, u_pos = 10, u_hint = None \<rparr>],
       def_pos := Some 2 \<rparr>"

section \<open>The allocator state (struct Vxls)\<close>

text \<open>
  \<open>PUNT(tag)\<close> leaves the allocator with an exception that this file never catches:
  every function that can punt returns \<open>Inl (Punt tag)\<close>, and its callers pass the
  failure on.  A failed assertion and a read through a null or dangling pointer or
  outside a vector are \<open>Inl Abort\<close>.  \<open>mem\<close> is the store of intervals; \<open>pending\<close>
  holds the queued intervals in the order they were pushed (\<open>top\<close> would select the
  least start).  \<open>spill_slots\<close> has \<open>kMaxSpillSlots\<close> entries; the constant is
  declared outside the sources, so it is the length of the list.
\<close>

datatype punt_tag = LinearScan_TooManySpills | RegSpill

datatype failure = Punt punt_tag | Abort

record SpillInfo =
  num_spills :: nat
  used_spill_slots :: nat

record Vxls =
  ctx :: VxlsContext
  intervals :: "ivl_ptr option list"
  mem :: "Interval list"
  pending :: "ivl_ptr list"
  active :: "ivl_ptr list"
  inactive :: "ivl_ptr list"
  spill_slots :: "nat list"
  spill_info :: SpillInfo

definition set_ivl :: "Vxls \<Rightarrow> ivl_ptr \<Rightarrow> (Interval \<Rightarrow> Interval) \<Rightarrow> Vxls" where
  "set_ivl st i f = st \<lparr> mem := list_update (mem st) i (f (mem st ! i)) \<rparr>"

text \<open>The lambda \<open>assign_slot\<close> of \<open>assignSpill\<close>.\<close>

definition assign_slot :: "Vxls \<Rightarrow> ivl_ptr \<Rightarrow> ivl_ptr \<Rightarrow> nat \<Rightarrow> Vxls" where
  "assign_slot st ivl ldr s =
     (let st1 = set_ivl st ldr (\<lambda>x. x \<lparr> slot := int s \<rparr>);
          st2 = set_ivl st1 ivl (\<lambda>x. x \<lparr> slot := int s \<rparr>);
          n1 = u32 (num_spills (spill_info st2) + 1);
          ss1 = list_update (spill_slots st2) s kMaxPos
      in if \<not> wide (mem st2 ! ivl)
         then st2 \<lparr> spill_slots := ss1,
                    spill_info := \<lparr> num_spills = n1,
                      used_spill_slots = max (used_spill_slots (spill_info st2)) (s + 1) \<rparr> \<rparr>
         else st2 \<lparr> spill_slots := list_update ss1 (s + 1) kMaxPos,
                    spill_info := \<lparr> num_spills = n1,
                      used_spill_slots = max (used_spill_slots (spill_info st2)) (s + 2) \<rparr> \<rparr>)"

text \<open>
  The two search loops of \<open>assignSpill\<close>: the first slot (the first even slot, for a
  wide interval) from \<open>s\<close> on and below \<open>n\<close> whose watermark is at or below the
  leader's start.
\<close>

function scan_slots :: "nat list \<Rightarrow> nat \<Rightarrow> nat \<Rightarrow> nat \<Rightarrow> nat option" where
  "scan_slots ss lstart s n =
     (if s < n then (if lstart \<ge> ss ! s then Some s else scan_slots ss lstart (s + 1) n)
      else None)"
  by pat_completeness auto
termination
  by (relation "measure (\<lambda>(ss, lstart, s, n). n - s)") auto

declare scan_slots.simps [simp del]

function scan_wide_slots :: "nat list \<Rightarrow> nat \<Rightarrow> nat \<Rightarrow> nat \<Rightarrow> nat option" where
  "scan_wide_slots ss lstart s n =
     (if s < n then
        (if lstart \<ge> ss ! s \<and> lstart \<ge> ss ! (s + 1) then Some s
         else scan_wide_slots ss lstart (s + 2) n)
      else None)"
  by pat_completeness auto
termination
  by (relation "measure (\<lambda>(ss, lstart, s, n). n - s)") auto

declare scan_wide_slots.simps [simp del]

text \<open>
  \<open>spill_slots.size() - 1\<close> is computed in \<open>size_t\<close>; for an array without slots it
  would wrap and the loop would read outside the array, which is \<open>Abort\<close>.
\<close>

definition assignSpill :: "Vxls \<Rightarrow> ivl_ptr \<Rightarrow> failure + Vxls" where
  "assignSpill st ivl =
     (if \<not> ivl < length (mem st) then Inl Abort
      else if fixed (mem st ! ivl) then Inl Abort
      else case parent (mem st ! ivl) of
        None \<Rightarrow> Inl Abort
      | Some ldr \<Rightarrow>
          if \<not> ldr < length (mem st) then Inl Abort
          else if slot (mem st ! ldr) \<noteq> kInvalidSpillSlot
            then Inr (set_ivl st ivl (\<lambda>x. x \<lparr> slot := slot (mem st ! ldr) \<rparr>))
          else if \<not> wide (mem st ! ivl) then
            (case scan_slots (spill_slots st) (start (mem st ! ldr)) 0 (length (spill_slots st)) of
               Some s \<Rightarrow> Inr (assign_slot st ivl ldr s)
             | None \<Rightarrow> Inl (Punt LinearScan_TooManySpills))
          else if length (spill_slots st) = 0 then Inl Abort
          else
            (case scan_wide_slots (spill_slots st) (start (mem st ! ldr)) 0
                    (length (spill_slots st) - 1) of
               Some s \<Rightarrow> Inr (assign_slot st ivl ldr s)
             | None \<Rightarrow> Inl (Punt LinearScan_TooManySpills)))"

definition assignReg :: "Vxls \<Rightarrow> ivl_ptr \<Rightarrow> PhysReg \<Rightarrow> failure + Vxls" where
  "assignReg st ivl r =
     (if \<not> ivl < length (mem st) then Inl Abort
      else if \<not> fixed (mem st ! ivl) \<and> uses (mem st ! ivl) = [] then
        (let st1 = set_ivl st ivl (\<lambda>x. x \<lparr> reg := InvalidReg \<rparr>)
         in if \<not> is_constant (mem st1 ! ivl) then assignSpill st1 ivl else Inr st1)
      else
        (let st1 = set_ivl st ivl (\<lambda>x. x \<lparr> reg := r \<rparr>)
         in Inr (st1 \<lparr> active := active st1 @ [ivl] \<rparr>)))"

definition spill :: "Vxls \<Rightarrow> ivl_ptr \<Rightarrow> failure + Vxls" where
  "spill st ivl =
     (if \<not> ivl < length (mem st) then Inl Abort
      else
        (let first_use = firstUse (mem st ! ivl);
             after_split =
               (if first_use \<le> end' (mem st ! ivl) then
                  (case nearestSplitBefore (ctx st) first_use of
                     None \<Rightarrow> Inl Abort
                   | Some split_pos \<Rightarrow>
                       if split_pos \<le> start (mem st ! ivl) then Inl (Punt RegSpill)
                       else (case split (mem st) ivl split_pos False of
                               None \<Rightarrow> Inl Abort
                             | Some (m, child) \<Rightarrow>
                                 Inr (st \<lparr> mem := m, pending := pending st @ [child] \<rparr>)))
                else Inr st)
         in case after_split of
              Inl e \<Rightarrow> Inl e
            | Inr st1 \<Rightarrow>
                (let st2 = set_ivl st1 ivl (\<lambda>x. x \<lparr> reg := InvalidReg \<rparr>)
                 in if \<not> is_constant (mem st2 ! ivl) then assignSpill st2 ivl else Inr st2)))"









text \<open>
  \<open>no_free_slot\<close>: no slot (no even slot with its successor, for a wide interval) has
  a watermark at or below the leader's start.  \<open>unassigned st ivl\<close> is the state after
  \<open>ivl->reg = InvalidReg\<close>.
\<close>

definition no_free_slot :: "nat list \<Rightarrow> bool \<Rightarrow> nat \<Rightarrow> bool" where
  "no_free_slot ss w lstart =
     (if w then list_all (\<lambda>s. even s \<longrightarrow> \<not> (ss ! s \<le> lstart \<and> ss ! (s + 1) \<le> lstart))
                 [0..<length ss - 1]
      else list_all (\<lambda>s. lstart < ss ! s) [0..<length ss])"

definition unassigned :: "Vxls \<Rightarrow> ivl_ptr \<Rightarrow> Vxls" where
  "unassigned st ivl = set_ivl st ivl (\<lambda>x. x \<lparr> reg := InvalidReg \<rparr>)"

text \<open>
  Example states: the chain of \<open>ex_root\<close> with a child without uses, two spill slots;
  \<open>ex_full\<close> has both slots owned, \<open>ex_spilled\<close> is \<open>ex_st\<close> after the child got
  slot 0.
\<close>

definition ex_nouse :: Interval where
  "ex_nouse = (make_child 0 ex_root) \<lparr> ranges := [\<lparr> lr_start = 6, lr_end = 10 \<rparr>] \<rparr>"

definition ex_st :: Vxls where
  "ex_st = \<lparr> ctx = ex_ctx, intervals = [Some 0], mem = [ex_root, ex_nouse], pending = [],
             active = [], inactive = [], spill_slots = [0, 0],
             spill_info = \<lparr> num_spills = 0, used_spill_slots = 0 \<rparr> \<rparr>"

definition ex_full :: Vxls where
  "ex_full = ex_st \<lparr> spill_slots := [kMaxPos, kMaxPos] \<rparr>"

definition ex_spilled :: Vxls where
  "ex_spilled = ex_st \<lparr> mem := [ex_root \<lparr> slot := 0 \<rparr>,
                                 ex_nouse \<lparr> slot := 0, reg := InvalidReg \<rparr>],
                        spill_slots := [kMaxPos, 0],
                        spill_info := \<lparr> num_spills = 1, used_spill_slots = 1 \<rparr> \<rparr>"

section \<open>Lifetime continuity resolution\<close>


















section \<open>Building the intervals\<close>

























section \<open>Well-formedness while the intervals are built\<close>










section \<open>Verification\<close>

subsection \<open>Binary search over the uses\<close>

lemma uses_sorted_nth:
  "uses_sorted us \<Longrightarrow> i \<le> j \<Longrightarrow> j < length us \<Longrightarrow> u_pos (us ! i) \<le> u_pos (us ! j)"
  unfolding uses_sorted_def by (metis (no_types, lifting) length_map nth_map order_le_less_trans sorted_nth_mono)

lemma findUse_loop_Found:
  "findUse_loop us p lo hi = Found m \<Longrightarrow> lo \<le> m \<and> m < hi \<and> (hi \<le> length us \<longrightarrow> u_pos (us ! m) = p)"
proof (induction us p lo hi rule: findUse_loop.induct)
  case (1 us p lo hi)
  note unf = findUse_loop.simps[of us p lo hi]
  show ?case
  proof (cases "lo < hi")
    case False
    with "1.prems" show ?thesis by (simp add: unf)
  next
    case True
    let ?mid = "(lo + hi) div 2"
    from True have m: "lo \<le> ?mid" "?mid < hi" by auto
    consider (a) "p < u_pos (us ! ?mid)" | (b) "u_pos (us ! ?mid) < p" | (c) "u_pos (us ! ?mid) = p"
      by linarith
    then show ?thesis
    proof cases
      case a
      with True "1.prems" have "findUse_loop us p lo ?mid = Found m" by (simp add: unf)
      from "1.IH"(1)[OF True a this] m show ?thesis by auto
    next
      case b
      with True "1.prems" have "findUse_loop us p (?mid + 1) hi = Found m" by (simp add: unf)
      from "1.IH"(2)[OF True _ b this] b m show ?thesis by auto
    next
      case c
      with True "1.prems" have "m = ?mid" by (simp add: unf)
      with c m show ?thesis by simp
    qed
  qed
qed

lemma findUse_loop_NotFound:
  "findUse_loop us p lo hi = NotFound k \<Longrightarrow> uses_sorted us \<Longrightarrow> lo \<le> hi \<Longrightarrow> hi \<le> length us \<Longrightarrow>
   (\<forall>i. i < lo \<longrightarrow> u_pos (us ! i) < p) \<Longrightarrow> (\<forall>i. hi \<le> i \<and> i < length us \<longrightarrow> p < u_pos (us ! i)) \<Longrightarrow>
   k \<le> length us \<and> (\<forall>i. i < k \<longrightarrow> u_pos (us ! i) < p) \<and> (\<forall>i. k \<le> i \<and> i < length us \<longrightarrow> p < u_pos (us ! i))"
proof (induction us p lo hi rule: findUse_loop.induct)
  case (1 us p lo hi)
  note unf = findUse_loop.simps[of us p lo hi]
  show ?case
  proof (cases "lo < hi")
    case False
    with "1.prems" have "k = lo" "lo = hi" by (auto simp: unf)
    with "1.prems" show ?thesis by auto
  next
    case True
    let ?mid = "(lo + hi) div 2"
    from True have m: "lo \<le> ?mid" "?mid < hi" by auto
    consider (a) "p < u_pos (us ! ?mid)" | (b) "u_pos (us ! ?mid) < p" | (c) "u_pos (us ! ?mid) = p"
      by linarith
    then show ?thesis
    proof cases
      case a
      with True "1.prems" have eq: "findUse_loop us p lo ?mid = NotFound k" by (simp add: unf)
      have hi': "\<forall>i. ?mid \<le> i \<and> i < length us \<longrightarrow> p < u_pos (us ! i)"
      proof (intro allI impI)
        fix i assume "?mid \<le> i \<and> i < length us"
        then have "u_pos (us ! ?mid) \<le> u_pos (us ! i)" using uses_sorted_nth[OF "1.prems"(2)] by blast
        with a show "p < u_pos (us ! i)" by linarith
      qed
      show ?thesis
        by (rule "1.IH"(1)[OF True a eq "1.prems"(2) _ _ "1.prems"(5) hi']) (use m "1.prems" in auto)
    next
      case b
      with True "1.prems" have eq: "findUse_loop us p (?mid + 1) hi = NotFound k" by (simp add: unf)
      have lo': "\<forall>i. i < ?mid + 1 \<longrightarrow> u_pos (us ! i) < p"
      proof (intro allI impI)
        fix i assume "i < ?mid + 1"
        then have "u_pos (us ! i) \<le> u_pos (us ! ?mid)" using uses_sorted_nth[OF "1.prems"(2), of i ?mid] m "1.prems"(4) by auto
        with b show "u_pos (us ! i) < p" by linarith
      qed
      have nb: "\<not> p < u_pos (us ! ?mid)" using b by simp
      show ?thesis
        by (rule "1.IH"(2)[OF True nb b eq "1.prems"(2) _ "1.prems"(4) lo' "1.prems"(6)]) (use m in auto)
    next
      case c
      with True "1.prems" show ?thesis by (simp add: unf)
    qed
  qed
qed

lemma findUse_present:
  assumes "uses_sorted (uses ivl)" "u \<in> set (uses ivl)" "u_pos u = p"
  shows "\<exists>j. findUse ivl p = Some j \<and> j < length (uses ivl) \<and> u_pos (uses ivl ! j) = p"
proof (cases "findUse_loop (uses ivl) p 0 (length (uses ivl))")
  case (Found m)
  from findUse_loop_Found[OF Found] Found show ?thesis by (simp add: findUse_def)
next
  case (NotFound k)
  from assms(2) obtain i where i: "i < length (uses ivl)" "uses ivl ! i = u" by (auto simp: in_set_conv_nth)
  from findUse_loop_NotFound[OF NotFound assms(1)]
  have "(\<forall>i. i < k \<longrightarrow> u_pos (uses ivl ! i) < p) \<and> (\<forall>i. k \<le> i \<and> i < length (uses ivl) \<longrightarrow> p < u_pos (uses ivl ! i))"
    by simp
  with i assms(3) have False by (metis less_irrefl not_le_imp_less)
  then show ?thesis ..
qed

subsection \<open>Block lookup and split positions\<close>

lemma or1: "(n::nat) OR 1 = (if even n then n + 1 else n)"
  using or_one_eq[of n] by auto

lemma blockFor_loop_Some:
  "blockFor_loop cx p lo hi = Some b \<Longrightarrow>
   \<exists>m. lo \<le> m \<and> m < hi \<and> m < length (blocks cx) \<and> b = blocks cx ! m \<and> b < length (block_ranges cx) \<and> contains (block_ranges cx ! b) p"
proof (induction cx p lo hi rule: blockFor_loop.induct)
  case (1 cx p lo hi)
  note unf = blockFor_loop.simps[of cx p lo hi]
  let ?mid = "(lo + hi) div 2"
  from "1.prems" have lt: "lo < hi" by (auto simp: unf split: if_splits)
  from "1.prems" lt have ok: "?mid < length (blocks cx) \<and> blocks cx ! ?mid < length (block_ranges cx)"
    by (auto simp: unf split: if_splits)
  from lt have m: "lo \<le> ?mid" "?mid < hi" by auto
  let ?r = "block_ranges cx ! (blocks cx ! ?mid)"
  consider (a) "p < lr_start ?r" | (b) "\<not> p < lr_start ?r" "p \<ge> lr_end ?r" | (c) "\<not> p < lr_start ?r" "\<not> p \<ge> lr_end ?r"
    by blast
  then show ?case
  proof cases
    case a
    with lt ok "1.prems" have "blockFor_loop cx p lo ?mid = Some b" by (simp add: unf)
    from "1.IH"(1)[OF lt ok a this] obtain m' where
      "lo \<le> m'" "m' < ?mid" "m' < length (blocks cx)" "b = blocks cx ! m'"
      "b < length (block_ranges cx)" "contains (block_ranges cx ! b) p" by blast
    with m show ?thesis by (intro exI[of _ m']) auto
  next
    case b
    with lt ok "1.prems" have "blockFor_loop cx p (?mid + 1) hi = Some b" by (simp add: unf)
    from "1.IH"(2)[OF lt ok b this] obtain m' where
      "?mid + 1 \<le> m'" "m' < hi" "m' < length (blocks cx)" "b = blocks cx ! m'"
      "b < length (block_ranges cx)" "contains (block_ranges cx ! b) p" by blast
    with m show ?thesis by (intro exI[of _ m']) auto
  next
    case c
    with lt ok "1.prems" have "b = blocks cx ! ?mid" by (simp add: unf)
    with c ok m show ?thesis by (auto simp: contains_def intro!: exI[of _ ?mid])
  qed
qed

lemma blocks_sorted_nth:
  assumes "blocks_sorted cx"
  shows "i < length (blocks cx) \<Longrightarrow> blocks cx ! i < length (block_ranges cx)"
    and "i < length (blocks cx) \<Longrightarrow>
           lr_start (block_ranges cx ! (blocks cx ! i)) \<le> lr_end (block_ranges cx ! (blocks cx ! i))"
    and "i < j \<Longrightarrow> j < length (blocks cx) \<Longrightarrow>
           lr_end (block_ranges cx ! (blocks cx ! i)) \<le> lr_start (block_ranges cx ! (blocks cx ! j))"
  using assms by (auto simp: blocks_sorted_def list_all_length sorted_wrt_iff_nth_less)

lemma u32_pred: "1 \<le> p \<Longrightarrow> p \<le> kMaxPos \<Longrightarrow> u32 (p + 4294967296 - 1) = p - 1"
proof -
  assume a: "1 \<le> p" "p \<le> kMaxPos"
  then have e: "p + 4294967296 - 1 = (p - 1) + 4294967296" by simp
  have l: "p - 1 < 4294967296" using a by (simp add: kMaxPos_def)
  show ?thesis unfolding u32_def e using l by (metis mod_add_self2 mod_less)
qed

lemma blockFor_loop_complete:
  "blocks_sorted cx \<Longrightarrow> lo \<le> m \<Longrightarrow> m < hi \<Longrightarrow> hi \<le> length (blocks cx) \<Longrightarrow>
   contains (block_ranges cx ! (blocks cx ! m)) p \<Longrightarrow> \<exists>b. blockFor_loop cx p lo hi = Some b"
proof (induction cx p lo hi rule: blockFor_loop.induct)
  case (1 cx p lo hi)
  note unf = blockFor_loop.simps[of cx p lo hi]
  let ?mid = "(lo + hi) div 2"
  let ?r = "\<lambda>i. block_ranges cx ! (blocks cx ! i)"
  from "1.prems" have lt: "lo < hi" by simp
  from lt have mid: "lo \<le> ?mid" "?mid < hi" by auto
  with "1.prems" have ok: "?mid < length (blocks cx) \<and> blocks cx ! ?mid < length (block_ranges cx)"
    using blocks_sorted_nth(1)[of cx ?mid] by auto
  have wf: "lr_start (?r ?mid) \<le> lr_end (?r ?mid)" using ok "1.prems"(1) blocks_sorted_nth(2) by blast
  have ord: "\<And>i j. i < j \<Longrightarrow> j < length (blocks cx) \<Longrightarrow> lr_end (?r i) \<le> lr_start (?r j)"
    using "1.prems"(1) blocks_sorted_nth(3) by blast
  have cm: "lr_start (?r m) \<le> p" "p < lr_end (?r m)" using "1.prems"(5) by (auto simp: contains_def)
  consider (a) "p < lr_start (?r ?mid)" | (b) "\<not> p < lr_start (?r ?mid)" "p \<ge> lr_end (?r ?mid)"
    | (c) "\<not> p < lr_start (?r ?mid)" "\<not> p \<ge> lr_end (?r ?mid)"
    by blast
  then show ?case
  proof cases
    case a
    have "m < ?mid"
    proof (rule ccontr)
      assume "\<not> m < ?mid"
      then consider "m = ?mid" | "?mid < m" by linarith
      then show False
      proof cases
        case 1 with a cm show False by simp
      next
        case 2
        from ord[OF 2] "1.prems" have "lr_end (?r ?mid) \<le> lr_start (?r m)" by simp
        with a cm wf show False by linarith
      qed
    qed
    from "1.IH"(1)[OF lt ok a "1.prems"(1,2) this _ "1.prems"(5)] mid "1.prems"(4)
    obtain b where "blockFor_loop cx p lo ?mid = Some b" by auto
    with lt ok a show ?thesis by (simp add: unf)
  next
    case b
    have "?mid < m"
    proof (rule ccontr)
      assume "\<not> ?mid < m"
      then consider "m = ?mid" | "m < ?mid" by linarith
      then show False
      proof cases
        case 1 with b cm show False by simp
      next
        case 2
        from ord[OF 2] ok have "lr_end (?r m) \<le> lr_start (?r ?mid)" by simp
        with b cm wf show False by linarith
      qed
    qed
    then have "?mid + 1 \<le> m" by simp
    from "1.IH"(2)[OF lt ok b "1.prems"(1) this "1.prems"(3,4,5)]
    obtain b' where "blockFor_loop cx p (?mid + 1) hi = Some b'" by auto
    with lt ok b show ?thesis by (simp add: unf)
  next
    case c
    with lt ok show ?thesis by (simp add: unf)
  qed
qed

text \<open>
  C4.  For an unsigned position \<open>pos\<close>, \<open>nearestSplitBefore\<close> returns \<open>pos\<close> itself
  when \<open>pos\<close> is the start of the block range that encloses it, and otherwise the
  greatest odd position not above \<open>pos\<close>; so the result is a block start or odd, and
  never greater than \<open>pos\<close>.  It returns a result whenever the blocks are sorted and
  one of them encloses \<open>pos\<close>.
\<close>

theorem nearestSplitBefore_spec:
  "(p \<le> kMaxPos \<and> nearestSplitBefore cx p = Some s \<longrightarrow>
      (\<exists>b. blockFor cx p = Some b \<and> contains (block_ranges cx ! b) p
          \<and> (if p = lr_start (block_ranges cx ! b) then s = p
              else odd s \<and> s \<le> p \<and> p \<le> s + 1)
          \<and> (s = lr_start (block_ranges cx ! b) \<or> odd s) \<and> s \<le> p))
   \<and> (blocks_sorted cx
        \<and> (\<exists>m. m < length (blocks cx) \<and> contains (block_ranges cx ! (blocks cx ! m)) p)
      \<longrightarrow> (\<exists>s. nearestSplitBefore cx p = Some s))"
proof (intro conjI impI)
  assume a: "p \<le> kMaxPos \<and> nearestSplitBefore cx p = Some s"
  then obtain b where b: "blockFor cx p = Some b"
    by (auto simp: nearestSplitBefore_def split: option.splits)
  from blockFor_loop_Some[OF b[unfolded blockFor_def]]
  have c: "contains (block_ranges cx ! b) p" by blast
  show "\<exists>b. blockFor cx p = Some b \<and> contains (block_ranges cx ! b) p
          \<and> (if p = lr_start (block_ranges cx ! b) then s = p
              else odd s \<and> s \<le> p \<and> p \<le> s + 1)
          \<and> (s = lr_start (block_ranges cx ! b) \<or> odd s) \<and> s \<le> p"
  proof (cases "p = lr_start (block_ranges cx ! b)")
    case True
    with a b c show ?thesis by (auto simp: nearestSplitBefore_def)
  next
    case False
    with c have p1: "1 \<le> p" by (auto simp: contains_def)
    with a have u: "u32 (p + 4294967296 - 1) = p - 1"
      using u32_pred by blast
    from a b False u have s: "s = (p - 1) OR 1" by (auto simp: nearestSplitBefore_def)
    have "odd s \<and> s \<le> p \<and> p \<le> s + 1" using p1 unfolding s or1 by (cases "even (p - 1)") auto
    with b c False show ?thesis by auto
  qed
next
  assume "blocks_sorted cx \<and> (\<exists>m. m < length (blocks cx) \<and> contains (block_ranges cx ! (blocks cx ! m)) p)"
  then obtain m where "blocks_sorted cx" "m < length (blocks cx)" "contains (block_ranges cx ! (blocks cx ! m)) p"
    by blast
  from blockFor_loop_complete[OF this(1) _ this(2) _ this(3), of 0] obtain b where "blockFor cx p = Some b"
    by (auto simp: blockFor_def)
  then show "\<exists>s. nearestSplitBefore cx p = Some s" by (simp add: nearestSplitBefore_def)
qed

theorem nearestSplitBefore_spec_witness:
  "nearestSplitBefore ex_ctx 6 = Some 5 \<and> blockFor ex_ctx 6 = Some 2
   \<and> contains (block_ranges ex_ctx ! 2) 6 \<and> odd (5::nat)
   \<and> blocks_sorted ex_ctx \<and> (\<exists>s. nearestSplitBefore ex_ctx 6 = Some s)"
proof -
  have 1: "nearestSplitBefore ex_ctx 6 = Some 5"
    by (simp add: nearestSplitBefore_def blockFor_def blockFor_loop.simps ex_ctx_def u32_def)
  have 2: "blocks_sorted ex_ctx"
    by (simp add: blocks_sorted_def ex_ctx_def)
  have 3: "\<exists>m. m < length (blocks ex_ctx) \<and> contains (block_ranges ex_ctx ! (blocks ex_ctx ! m)) 6"
    by (rule exI[of _ 1]) (simp add: ex_ctx_def contains_def)
  have 4: "(6::nat) \<le> kMaxPos" by (simp add: kMaxPos_def)
  have 5: "blockFor ex_ctx 6 = Some 2" by (simp add: blockFor_def blockFor_loop.simps ex_ctx_def)
  have 6: "contains (block_ranges ex_ctx ! 2) 6" by (simp add: ex_ctx_def contains_def)
  from nearestSplitBefore_spec[of 6 ex_ctx 5] 1 2 3 4 5 6 show ?thesis by simp
qed

subsection \<open>Stack pointer effect\<close>

text \<open>
  C7 as stated fails: an \<open>addqi\<close> whose destination is \<open>sp\<close> but whose source
  register is not trips the assertion instead of yielding its immediate.
\<close>

theorem spEffect_addqi_counterexample: "spEffect ex_vir ex_unit \<lparr> op = addqi 16 (Virt 0) (Phys (GpReg 4)), pos = 0 \<rparr> (GpReg 4) = None"
  by (simp add: spEffect_def)

lemma sint_neg32:
  fixes s0 :: "32 word"
  assumes "s0 \<noteq> - 2147483648"
  shows "sint (- s0) = - sint s0"
proof -
  have r: "- 2147483648 \<le> sint s0" "sint s0 < 2147483648"
    using sint_ge[of s0] sint_lt[of s0] by simp_all
  have "sint s0 \<noteq> - 2147483648"
  proof
    assume "sint s0 = - 2147483648"
    then have "sint s0 = sint (- 2147483648 :: 32 word)" by simp
    then have "s0 = - 2147483648" by (simp only: signed_word_eqI)
    with assms show False by simp
  qed
  with r have "- 2147483648 \<le> - sint s0 \<and> - sint s0 < 2147483648" by linarith
  then have "signed_take_bit 31 (- sint s0) = - sint s0"
    by (simp add: signed_take_bit_int_eq_self_iff)
  then show ?thesis by (simp add: sint_word_minus)
qed

text \<open>
  C7, amended.  \<open>spEffect\<close> returns -8 for \<open>push\<close> and 8 for \<open>pop\<close>.  For
  \<open>addqi\<close> and \<open>subqi\<close> whose destination is \<open>sp\<close> it returns the 32-bit
  immediate, negated in 32 bits for \<open>subqi\<close>, when the source register is \<open>sp\<close>
  too, and fails its assertion otherwise; the negated immediate is the negative of the
  immediate except at \<open>INT_MIN\<close>, whose negation is \<open>INT_MIN\<close>.  For \<open>lea\<close>
  whose destination is \<open>sp\<close> it returns the 32-bit displacement when the base is
  \<open>sp\<close> and there is no index, and fails its assertion otherwise.  It returns 0 for
  these three opcodes with another destination, and for every other instruction that
  does not define \<open>sp\<close>; every other instruction that defines \<open>sp\<close> fails the
  assertion.  Every result is a 32-bit signed value.
\<close>

theorem spEffect_cases:
  "((\<exists>s. op inst = push s) \<longrightarrow> spEffect vir unit inst sp_reg = Some (- 8)) \<and>
   ((\<exists>d. op inst = pop d) \<longrightarrow> spEffect vir unit inst sp_reg = Some 8) \<and>
   (op inst = addqi s0 s1 d \<longrightarrow> spEffect vir unit inst sp_reg =
       (if d \<noteq> Phys sp_reg then Some 0 else if s1 = Phys sp_reg then Some (sint s0) else None)) \<and>
   (op inst = subqi s0 s1 d \<longrightarrow> spEffect vir unit inst sp_reg =
       (if d \<noteq> Phys sp_reg then Some 0
        else if s1 \<noteq> Phys sp_reg then None
        else if s0 = - 2147483648 then Some (- 2147483648)
        else Some (- sint s0))) \<and>
   (op inst = lea m d \<longrightarrow> spEffect vir unit inst sp_reg =
       (if d \<noteq> Phys sp_reg then Some 0
        else if base m = Some (Phys sp_reg) \<and> index m = None then Some (sint (disp m))
        else None)) \<and>
   (\<not> tracked_op (op inst) \<longrightarrow> spEffect vir unit inst sp_reg =
       (if Phys sp_reg \<in> set (visitDefs vir unit inst) then None else Some 0)) \<and>
   (\<forall>v. spEffect vir unit inst sp_reg = Some v \<longrightarrow> - 2147483648 \<le> v \<and> v < 2147483648)"
proof -
  have rng: "- 2147483648 \<le> sint w \<and> sint w < 2147483648" for w :: "32 word"
    using sint_ge[of w] sint_lt[of w] by simp
  have sub: "sint (- s0) = (if s0 = - 2147483648 then - 2147483648 else - sint s0)"
    using sint_neg32[of s0] by simp
  have 1: "(\<exists>s. op inst = push s) \<longrightarrow> spEffect vir unit inst sp_reg = Some (- 8)"
    by (auto simp: spEffect_def)
  have 2: "(\<exists>d. op inst = pop d) \<longrightarrow> spEffect vir unit inst sp_reg = Some 8"
    by (auto simp: spEffect_def)
  have 3: "op inst = addqi s0 s1 d \<longrightarrow> spEffect vir unit inst sp_reg =
       (if d \<noteq> Phys sp_reg then Some 0 else if s1 = Phys sp_reg then Some (sint s0) else None)"
    by (simp add: spEffect_def)
  have 4: "op inst = subqi s0 s1 d \<longrightarrow> spEffect vir unit inst sp_reg =
       (if d \<noteq> Phys sp_reg then Some 0
        else if s1 \<noteq> Phys sp_reg then None
        else if s0 = - 2147483648 then Some (- 2147483648)
        else Some (- sint s0))"
    by (simp add: spEffect_def sub)
  have 5: "op inst = lea m d \<longrightarrow> spEffect vir unit inst sp_reg =
       (if d \<noteq> Phys sp_reg then Some 0
        else if base m = Some (Phys sp_reg) \<and> index m = None then Some (sint (disp m))
        else None)"
    by (auto simp: spEffect_def)
  have 6: "\<not> tracked_op (op inst) \<longrightarrow> spEffect vir unit inst sp_reg =
       (if Phys sp_reg \<in> set (visitDefs vir unit inst) then None else Some 0)"
    by (auto simp: spEffect_def tracked_op_def list_all_iff split: Vop.splits)
  have 7: "\<forall>v. spEffect vir unit inst sp_reg = Some v \<longrightarrow> - 2147483648 \<le> v \<and> v < 2147483648"
    using rng by (auto simp: spEffect_def split: Vop.splits if_splits)
  from 1 2 3 4 5 6 7 show ?thesis by blast
qed

theorem spEffect_cases_witness:
  "spEffect ex_vir ex_unit \<lparr> op = push (Virt 0), pos = 0 \<rparr> (GpReg 4) = Some (- 8)
   \<and> spEffect ex_vir ex_unit \<lparr> op = pop (Virt 0), pos = 0 \<rparr> (GpReg 4) = Some 8
   \<and> spEffect ex_vir ex_unit \<lparr> op = addqi 16 (Phys (GpReg 4)) (Phys (GpReg 4)), pos = 0 \<rparr> (GpReg 4)
       = Some 16
   \<and> spEffect ex_vir ex_unit \<lparr> op = subqi 16 (Phys (GpReg 4)) (Phys (GpReg 4)), pos = 0 \<rparr> (GpReg 4)
       = Some (- 16)
   \<and> spEffect ex_vir ex_unit
        \<lparr> op = lea \<lparr> base = Some (Phys (GpReg 4)), index = None, disp = 24 \<rparr> (Phys (GpReg 4)),
          pos = 0 \<rparr> (GpReg 4) = Some 24
   \<and> spEffect ex_vir ex_unit
        \<lparr> op = subqi (- 2147483648) (Phys (GpReg 4)) (Phys (GpReg 4)), pos = 0 \<rparr> (GpReg 4)
       = Some (- 2147483648)
   \<and> spEffect ex_vir ex_unit \<lparr> op = nop, pos = 0 \<rparr> (GpReg 4) = Some 0"
  using spEffect_cases[where inst = "\<lparr> op = push (Virt 0), pos = 0 \<rparr>" and vir = ex_vir
      and unit = ex_unit and sp_reg = "GpReg 4"]
    spEffect_cases[where inst = "\<lparr> op = pop (Virt 0), pos = 0 \<rparr>" and vir = ex_vir
      and unit = ex_unit and sp_reg = "GpReg 4"]
    spEffect_cases[where inst = "\<lparr> op = addqi 16 (Phys (GpReg 4)) (Phys (GpReg 4)), pos = 0 \<rparr>"
      and vir = ex_vir and unit = ex_unit and sp_reg = "GpReg 4" and ?s0.0 = 16
      and ?s1.0 = "Phys (GpReg 4)" and d = "Phys (GpReg 4)"]
    spEffect_cases[where inst = "\<lparr> op = subqi 16 (Phys (GpReg 4)) (Phys (GpReg 4)), pos = 0 \<rparr>"
      and vir = ex_vir and unit = ex_unit and sp_reg = "GpReg 4" and ?s0.0 = 16
      and ?s1.0 = "Phys (GpReg 4)" and d = "Phys (GpReg 4)"]
    spEffect_cases[where inst = "\<lparr> op = lea \<lparr> base = Some (Phys (GpReg 4)), index = None,
        disp = 24 \<rparr> (Phys (GpReg 4)), pos = 0 \<rparr>"
      and vir = ex_vir and unit = ex_unit and sp_reg = "GpReg 4"
      and m = "\<lparr> base = Some (Phys (GpReg 4)), index = None, disp = 24 \<rparr>"
      and d = "Phys (GpReg 4)"]
    spEffect_cases[where inst = "\<lparr> op = subqi (- 2147483648) (Phys (GpReg 4)) (Phys (GpReg 4)),
        pos = 0 \<rparr>"
      and vir = ex_vir and unit = ex_unit and sp_reg = "GpReg 4" and ?s0.0 = "- 2147483648"
      and ?s1.0 = "Phys (GpReg 4)" and d = "Phys (GpReg 4)"]
    spEffect_cases[where inst = "\<lparr> op = nop, pos = 0 \<rparr>" and vir = ex_vir
      and unit = ex_unit and sp_reg = "GpReg 4"]
  by (simp add: tracked_op_def ex_vir_def)

subsection \<open>Uses at the open end of an interval\<close>

lemma ex_childAt: "childAt ex_heap 0 6 = Some (Some 0)"
  by (simp add: childAt_def childAt_loop.simps ex_heap_def ex_root_def ex_child_def make_Interval_def
      make_child_def usedAt_def findUse_def findUse_loop.simps start_def end'_def)

text \<open>
  C10.  \<open>covers(end())\<close> is false for every interval; \<open>usedAt(end())\<close> is true when
  a use is recorded at the end position (the uses being sorted); and \<open>childAt\<close>, which
  selects by \<open>usedAt\<close>, can return an interval that does not cover the position: in
  \<open>ex_heap\<close> it returns the root at position 6, which the child covers and the root
  does not.
\<close>

theorem covers_usedAt_end:
  "covers ivl (end' ivl) = Some False
   \<and> (uses_sorted (uses ivl) \<and> start ivl \<le> end' ivl \<and> (\<exists>u \<in> set (uses ivl). u_pos u = end' ivl)
        \<longrightarrow> usedAt ivl (end' ivl) = Some True)
   \<and> (childAt ex_heap 0 6 = Some (Some 0) \<and> covers (ex_heap ! 0) 6 = Some False
        \<and> covers (ex_heap ! 1) 6 = Some True)"
proof (intro conjI impI)
  show "covers ivl (end' ivl) = Some False" by (simp add: covers_def)
next
  assume a: "uses_sorted (uses ivl) \<and> start ivl \<le> end' ivl \<and> (\<exists>u \<in> set (uses ivl). u_pos u = end' ivl)"
  then obtain u where "u \<in> set (uses ivl)" "u_pos u = end' ivl" by blast
  from findUse_present[OF _ this] a obtain j where
    "findUse ivl (end' ivl) = Some j" "j < length (uses ivl)" "u_pos (uses ivl ! j) = end' ivl" by blast
  with a show "usedAt ivl (end' ivl) = Some True" by (simp add: usedAt_def)
next
  show "childAt ex_heap 0 6 = Some (Some 0)" by (rule ex_childAt)
next
  show "covers (ex_heap ! 0) 6 = Some False"
    by (simp add: covers_def ex_heap_def ex_root_def make_Interval_def start_def end'_def)
next
  show "covers (ex_heap ! 1) 6 = Some True"
    by (simp add: covers_def ex_heap_def ex_child_def ex_root_def make_child_def make_Interval_def
        start_def end'_def findRange_def findRange_loop.simps contains_def)
qed

theorem covers_usedAt_end_witness:
  "uses_sorted (uses ex_root) \<and> start ex_root \<le> end' ex_root
   \<and> (\<exists>u \<in> set (uses ex_root). u_pos u = end' ex_root)
   \<and> usedAt ex_root (end' ex_root) = Some True \<and> covers ex_root (end' ex_root) = Some False"
proof -
  have 1: "uses_sorted (uses ex_root)" by (simp add: uses_sorted_def ex_root_def make_Interval_def)
  have 2: "start ex_root \<le> end' ex_root" by (simp add: ex_root_def make_Interval_def start_def end'_def)
  have 3: "\<exists>u \<in> set (uses ex_root). u_pos u = end' ex_root"
    by (simp add: ex_root_def make_Interval_def end'_def)
  from covers_usedAt_end[of ex_root] 1 2 3 show ?thesis by blast
qed

subsection \<open>Separated range lists and binary search over the ranges\<close>

lemma separated_Cons:
  "separated (r # rs) \<longleftrightarrow>
     lr_start r < lr_end r \<and> (\<forall>r' \<in> set rs. lr_end r < lr_start r') \<and> separated rs"
proof (induction rs arbitrary: r)
  case Nil
  show ?case by simp
next
  case (Cons a rs)
  show ?case using Cons.IH[of a] by (auto intro: less_trans)
qed

lemma separated_nth:
  assumes "separated rs"
  shows "i < length rs \<Longrightarrow> lr_start (rs ! i) < lr_end (rs ! i)"
    and "i < j \<Longrightarrow> j < length rs \<Longrightarrow> lr_end (rs ! i) < lr_start (rs ! j)"
  using assms
proof (induction rs arbitrary: i j)
  case Nil
  { case 1 then show ?case by simp }
  { case 2 then show ?case by simp }
next
  case (Cons r rs)
  { case 1
    then show ?case using Cons.IH(1)[of "i - 1"] by (cases i) (auto simp: separated_Cons) }
  { case 2
    then show ?case using Cons.IH(2)[of "i - 1" "j - 1"]
      by (cases i; cases j) (auto simp: separated_Cons) }
qed

lemma separated_drop: "separated rs \<Longrightarrow> separated (drop k rs)"
proof (induction rs arbitrary: k)
  case Nil then show ?case by simp
next
  case (Cons r rs)
  then show ?case by (cases k) (auto simp: separated_Cons)
qed

lemma covered_Cons: "covered (r # rs) p \<longleftrightarrow> contains r p \<or> covered rs p"
  by (simp add: covered_def)

lemma covered_ge_start:
  "separated (r # rs) \<Longrightarrow> covered (r # rs) p \<Longrightarrow> lr_start r \<le> p"
  by (auto simp: covered_def separated_Cons contains_def list_ex_iff)

lemma findRange_loop_Found:
  "findRange_loop rs p lo hi = Found m \<Longrightarrow>
   lo \<le> m \<and> m < hi \<and> lr_start (rs ! m) \<le> p \<and> p < lr_end (rs ! m)"
proof (induction rs p lo hi rule: findRange_loop.induct)
  case (1 rs p lo hi)
  note unf = findRange_loop.simps[of rs p lo hi]
  let ?mid = "(lo + hi) div 2"
  from "1.prems" have lt: "lo < hi" by (auto simp: unf split: if_splits)
  then have m: "lo \<le> ?mid" "?mid < hi" by auto
  consider (a) "p < lr_start (rs ! ?mid)" | (b) "\<not> p < lr_start (rs ! ?mid)" "lr_end (rs ! ?mid) \<le> p"
    | (c) "\<not> p < lr_start (rs ! ?mid)" "\<not> lr_end (rs ! ?mid) \<le> p" by blast
  then show ?case
  proof cases
    case a
    with lt "1.prems" have "findRange_loop rs p lo ?mid = Found m" by (simp add: unf)
    from "1.IH"(1)[OF lt a this] m show ?thesis by auto
  next
    case b
    with lt "1.prems" have "findRange_loop rs p (?mid + 1) hi = Found m" by (simp add: unf)
    from "1.IH"(2)[OF lt b this] m show ?thesis by auto
  next
    case c
    with lt "1.prems" have "m = ?mid" by (simp add: unf)
    with c m show ?thesis by simp
  qed
qed

lemma findRange_loop_NotFound:
  "findRange_loop rs p lo hi = NotFound k \<Longrightarrow> separated rs \<Longrightarrow> lo \<le> hi \<Longrightarrow> hi \<le> length rs \<Longrightarrow>
   (\<forall>i. i < lo \<longrightarrow> lr_end (rs ! i) \<le> p) \<Longrightarrow>
   (\<forall>i. hi \<le> i \<and> i < length rs \<longrightarrow> p < lr_start (rs ! i)) \<Longrightarrow>
   k \<le> length rs \<and> (\<forall>i. i < k \<longrightarrow> lr_end (rs ! i) \<le> p)
   \<and> (\<forall>i. k \<le> i \<and> i < length rs \<longrightarrow> p < lr_start (rs ! i))"
proof (induction rs p lo hi rule: findRange_loop.induct)
  case (1 rs p lo hi)
  note unf = findRange_loop.simps[of rs p lo hi]
  let ?mid = "(lo + hi) div 2"
  show ?case
  proof (cases "lo < hi")
    case False
    with "1.prems" have "k = lo" "lo = hi" by (auto simp: unf)
    with "1.prems" show ?thesis by auto
  next
    case lt: True
    then have m: "lo \<le> ?mid" "?mid < hi" by auto
    consider (a) "p < lr_start (rs ! ?mid)" | (b) "\<not> p < lr_start (rs ! ?mid)" "lr_end (rs ! ?mid) \<le> p"
      | (c) "\<not> p < lr_start (rs ! ?mid)" "\<not> lr_end (rs ! ?mid) \<le> p" by blast
    then show ?thesis
    proof cases
      case a
      with lt "1.prems" have eq: "findRange_loop rs p lo ?mid = NotFound k" by (simp add: unf)
      have hi': "\<forall>i. ?mid \<le> i \<and> i < length rs \<longrightarrow> p < lr_start (rs ! i)"
      proof (intro allI impI)
        fix i assume i: "?mid \<le> i \<and> i < length rs"
        show "p < lr_start (rs ! i)"
        proof (cases "i = ?mid")
          case True with a show ?thesis by simp
        next
          case False
          with i have "?mid < i" by simp
          from separated_nth(2)[OF "1.prems"(2) this] separated_nth(1)[OF "1.prems"(2), of ?mid] i a
          show ?thesis by auto
        qed
      qed
      show ?thesis
        by (rule "1.IH"(1)[OF lt a eq "1.prems"(2) _ _ "1.prems"(5) hi']) (use m "1.prems" in auto)
    next
      case b
      with lt "1.prems" have eq: "findRange_loop rs p (?mid + 1) hi = NotFound k" by (simp add: unf)
      have lo': "\<forall>i. i < ?mid + 1 \<longrightarrow> lr_end (rs ! i) \<le> p"
      proof (intro allI impI)
        fix i assume i: "i < ?mid + 1"
        show "lr_end (rs ! i) \<le> p"
        proof (cases "i = ?mid")
          case True with b show ?thesis by simp
        next
          case False
          with i have lt': "i < ?mid" by simp
          have "?mid < length rs" using m "1.prems"(4) by simp
          from separated_nth(2)[OF "1.prems"(2) lt' this] separated_nth(1)[OF "1.prems"(2) this] b
          show ?thesis by auto
        qed
      qed
      show ?thesis
        by (rule "1.IH"(2)[OF lt b(1) b(2) eq "1.prems"(2) _ "1.prems"(4) lo' "1.prems"(6)]) (use m in auto)
    next
      case c
      with lt "1.prems" show ?thesis by (simp add: unf)
    qed
  qed
qed

lemma findRange_spec:
  assumes "separated (ranges ivl)"
  shows "\<exists>k. findRange ivl p = Some k \<and> k \<le> length (ranges ivl)
           \<and> (\<forall>i. i < k \<longrightarrow> lr_end (ranges ivl ! i) \<le> p)
           \<and> (k < length (ranges ivl) \<longrightarrow> p < lr_end (ranges ivl ! k))
           \<and> (\<forall>i. k < i \<and> i < length (ranges ivl) \<longrightarrow> p < lr_start (ranges ivl ! i))
           \<and> ((k < length (ranges ivl) \<and> lr_start (ranges ivl ! k) \<le> p)
                \<or> (\<forall>i. k \<le> i \<and> i < length (ranges ivl) \<longrightarrow> p < lr_start (ranges ivl ! i)))"
proof (cases "findRange_loop (ranges ivl) p 0 (length (ranges ivl))")
  case (Found m)
  let ?rs = "ranges ivl"
  from findRange_loop_Found[OF Found] have m: "m < length ?rs" "lr_start (?rs ! m) \<le> p" "p < lr_end (?rs ! m)"
    by auto
  have "\<forall>i. i < m \<longrightarrow> lr_end (?rs ! i) \<le> p"
    using separated_nth(2)[OF assms _ m(1)] m(2) by (meson le_trans less_imp_le)
  moreover have "\<forall>i. m < i \<and> i < length ?rs \<longrightarrow> p < lr_start (?rs ! i)"
    using separated_nth(2)[OF assms, of m] m(3) by (meson less_trans)
  ultimately show ?thesis using Found m by (auto simp: findRange_def)
next
  case (NotFound k)
  let ?rs = "ranges ivl"
  from findRange_loop_NotFound[OF NotFound assms]
  have k: "k \<le> length ?rs" "\<forall>i. i < k \<longrightarrow> lr_end (?rs ! i) \<le> p"
    "\<forall>i. k \<le> i \<and> i < length ?rs \<longrightarrow> p < lr_start (?rs ! i)" by auto
  have "k < length ?rs \<longrightarrow> p < lr_end (?rs ! k)"
    using k(3) separated_nth(1)[OF assms, of k] by (metis le_refl less_trans)
  moreover have "k = length ?rs \<or> p < lr_start (?rs ! k)" using k(1,3) by auto
  ultimately show ?thesis using NotFound k by (auto simp: findRange_def)
qed

lemma covered_nth: "covered rs p \<longleftrightarrow> (\<exists>i < length rs. contains (rs ! i) p)"
  unfolding covered_def list_ex_iff by (metis in_set_conv_nth)

lemma covered_drop:
  assumes "\<forall>i. i < k \<longrightarrow> lr_end (rs ! i) \<le> p" "p \<le> q"
  shows "covered (drop k rs) q \<longleftrightarrow> covered rs q"
proof
  assume "covered (drop k rs) q"
  then show "covered rs q" by (auto simp: covered_def list_ex_iff dest: in_set_dropD)
next
  assume "covered rs q"
  then obtain i where i: "i < length rs" "contains (rs ! i) q" by (auto simp: covered_nth)
  have "k \<le> i"
  proof (rule ccontr)
    assume "\<not> k \<le> i"
    then have "lr_end (rs ! i) \<le> p" using assms(1) by simp
    with i(2) assms(2) show False by (simp add: contains_def)
  qed
  then have "i - k < length (drop k rs)" "drop k rs ! (i - k) = rs ! i" using i(1) by auto
  with i(2) show "covered (drop k rs) q" unfolding covered_nth by metis
qed

subsection \<open>Intersection of two intervals\<close>

lemma nextIntersect_loop_correct:
  "separated rs1 \<Longrightarrow> separated rs2 \<Longrightarrow> rs1 \<noteq> [] \<Longrightarrow> rs2 \<noteq> [] \<Longrightarrow>
   \<exists>r. nextIntersect_loop rs1 rs2 = Some r \<and>
       ((r = kMaxPos \<and> (\<forall>q. \<not> (covered rs1 q \<and> covered rs2 q)))
        \<or> (covered rs1 r \<and> covered rs2 r \<and> (\<forall>q. covered rs1 q \<and> covered rs2 q \<longrightarrow> r \<le> q)))"
proof (induction rs1 rs2 rule: nextIntersect_loop.induct)
  case (1 r1 rs1 r2 rs2)
  have ne1: "lr_start r1 < lr_end r1" and ne2: "lr_start r2 < lr_end r2"
    using "1.prems" by (auto simp: separated_Cons)
  have s1: "separated rs1" and s2: "separated rs2" using "1.prems" by (auto simp: separated_Cons)
  have ge1: "\<And>q. covered (r1 # rs1) q \<Longrightarrow> lr_start r1 \<le> q"
    using covered_ge_start "1.prems"(1) by blast
  have ge2: "\<And>q. covered (r2 # rs2) q \<Longrightarrow> lr_start r2 \<le> q"
    using covered_ge_start "1.prems"(2) by blast
  show ?case
  proof (cases "lr_start r1 < lr_start r2")
    case True
    show ?thesis
    proof (cases "lr_start r2 < lr_end r1")
      case t: True
      have "covered (r1 # rs1) (lr_start r2)" using True t by (simp add: covered_Cons contains_def)
      moreover have "covered (r2 # rs2) (lr_start r2)" using ne2 by (simp add: covered_Cons contains_def)
      ultimately show ?thesis using True t ge2 by auto
    next
      case f: False
      have drop1: "\<And>q. covered (r1 # rs1) q \<and> covered (r2 # rs2) q \<longleftrightarrow> covered rs1 q \<and> covered (r2 # rs2) q"
      proof -
        fix q
        have "\<not> (contains r1 q \<and> covered (r2 # rs2) q)"
        proof
          assume a: "contains r1 q \<and> covered (r2 # rs2) q"
          then have "lr_start r2 \<le> q" using ge2 by blast
          with a f show False by (simp add: contains_def)
        qed
        then show "covered (r1 # rs1) q \<and> covered (r2 # rs2) q \<longleftrightarrow> covered rs1 q \<and> covered (r2 # rs2) q"
          by (auto simp: covered_Cons)
      qed
      show ?thesis
      proof (cases "rs1 = []")
        case e: True
        then have "\<And>q. \<not> covered rs1 q" by (simp add: covered_def)
        with True f e drop1 show ?thesis by simp
      next
        case ne: False
        from "1.IH"(1)[OF True f ne s1 "1.prems"(2) ne] obtain r where
          r: "nextIntersect_loop rs1 (r2 # rs2) = Some r"
             "(r = kMaxPos \<and> (\<forall>q. \<not> (covered rs1 q \<and> covered (r2 # rs2) q)))
              \<or> (covered rs1 r \<and> covered (r2 # rs2) r
                  \<and> (\<forall>q. covered rs1 q \<and> covered (r2 # rs2) q \<longrightarrow> r \<le> q))"
          by blast
        have "nextIntersect_loop (r1 # rs1) (r2 # rs2) = Some r" using True f ne r(1) by simp
        moreover have "covered rs1 r \<Longrightarrow> covered (r1 # rs1) r" by (simp add: covered_Cons)
        ultimately show ?thesis using r(2) drop1 by blast
      qed
    qed
  next
    case False
    show ?thesis
    proof (cases "lr_start r1 < lr_end r2")
      case t: True
      have "covered (r2 # rs2) (lr_start r1)" using False t by (simp add: covered_Cons contains_def)
      moreover have "covered (r1 # rs1) (lr_start r1)" using ne1 by (simp add: covered_Cons contains_def)
      ultimately show ?thesis using False t ge1 by auto
    next
      case f: False
      have drop2: "\<And>q. covered (r1 # rs1) q \<and> covered (r2 # rs2) q \<longleftrightarrow> covered (r1 # rs1) q \<and> covered rs2 q"
      proof -
        fix q
        have "\<not> (covered (r1 # rs1) q \<and> contains r2 q)"
        proof
          assume a: "covered (r1 # rs1) q \<and> contains r2 q"
          then have "lr_start r1 \<le> q" using ge1 by blast
          with a f show False by (simp add: contains_def)
        qed
        then show "covered (r1 # rs1) q \<and> covered (r2 # rs2) q \<longleftrightarrow> covered (r1 # rs1) q \<and> covered rs2 q"
          by (auto simp: covered_Cons)
      qed
      show ?thesis
      proof (cases "rs2 = []")
        case e: True
        then have "\<And>q. \<not> covered rs2 q" by (simp add: covered_def)
        with False f e drop2 show ?thesis by simp
      next
        case ne: False
        from "1.IH"(2)[OF False f ne "1.prems"(1) s2 _ ne] obtain r where
          r: "nextIntersect_loop (r1 # rs1) rs2 = Some r"
             "(r = kMaxPos \<and> (\<forall>q. \<not> (covered (r1 # rs1) q \<and> covered rs2 q)))
              \<or> (covered (r1 # rs1) r \<and> covered rs2 r
                  \<and> (\<forall>q. covered (r1 # rs1) q \<and> covered rs2 q \<longrightarrow> r \<le> q))"
          by blast
        have "nextIntersect_loop (r1 # rs1) (r2 # rs2) = Some r" using False f ne r(1) by simp
        moreover have "covered rs2 r \<Longrightarrow> covered (r2 # rs2) r" by (simp add: covered_Cons)
        ultimately show ?thesis using r(2) drop2 by blast
      qed
    qed
  qed
qed simp_all

lemmas ex_ivl_defs = ex_a_def ex_b_def ex_fixed_def make_Interval_def start_def end'_def
  fixed_def

text \<open>
  C3 as stated fails.  \<open>ex_a\<close> and \<open>ex_b\<close> are unsplit and not fixed, both cover
  position 6, and \<open>nextIntersect\<close> answers \<open>kMaxPos\<close>: the guard returns before any
  range is read.  And for the fixed \<open>ex_fixed\<close>, unsplit and not covering the start of
  \<open>ex_a\<close>, the answer is 6, not infinity: the guard excludes fixed intervals.
\<close>

theorem nextIntersect_counterexample:
  "nextIntersect ex_a ex_b = Some kMaxPos
   \<and> covers ex_a 6 = Some True \<and> covers ex_b 6 = Some True \<and> 6 < kMaxPos
   \<and> \<not> fixed ex_a \<and> parent ex_a = None \<and> parent ex_fixed = None
   \<and> covers ex_fixed (start ex_a) = Some False \<and> nextIntersect ex_a ex_fixed = Some 6"
  by (simp add: nextIntersect_def covers_def findRange_def findRange_loop.simps contains_def
      kMaxPos_def ex_ivl_defs)

text \<open>
  C3, amended.  For well-formed intervals \<open>a\<close> (not fixed) and \<open>b\<close>: when both are
  unsplit and \<open>b\<close> is not fixed, \<open>nextIntersect\<close> returns \<open>kMaxPos\<close> whatever the
  ranges are.  Otherwise, when \<open>b\<close> ends after the start of \<open>a\<close>, it returns the
  smallest position covered by both, or \<open>kMaxPos\<close> when there is none.
\<close>

theorem nextIntersect_spec:
  "\<not> fixed a \<and> separated (ranges a) \<and> separated (ranges b) \<and> ranges a \<noteq> [] \<and> ranges b \<noteq> []
   \<longrightarrow> (parent a = None \<and> parent b = None \<and> \<not> fixed b \<longrightarrow> nextIntersect a b = Some kMaxPos)
     \<and> (\<not> (parent a = None \<and> parent b = None \<and> \<not> fixed b) \<and> start a < end' b \<longrightarrow>
          (\<exists>r. nextIntersect a b = Some r
             \<and> ((r = kMaxPos \<and> (\<forall>q. \<not> (covered (ranges a) q \<and> covered (ranges b) q)))
                 \<or> (covered (ranges a) r \<and> covered (ranges b) r
                     \<and> (\<forall>q. covered (ranges a) q \<and> covered (ranges b) q \<longrightarrow> r \<le> q)))))"
proof (intro impI conjI)
  assume "\<not> fixed a \<and> separated (ranges a) \<and> separated (ranges b) \<and> ranges a \<noteq> [] \<and> ranges b \<noteq> []"
    and "parent a = None \<and> parent b = None \<and> \<not> fixed b"
  then show "nextIntersect a b = Some kMaxPos" by (simp add: nextIntersect_def)
next
  assume h: "\<not> fixed a \<and> separated (ranges a) \<and> separated (ranges b) \<and> ranges a \<noteq> [] \<and> ranges b \<noteq> []"
    and g: "\<not> (parent a = None \<and> parent b = None \<and> \<not> fixed b) \<and> start a < end' b"
  let ?P = "\<lambda>r. (r = kMaxPos \<and> (\<forall>q. \<not> (covered (ranges a) q \<and> covered (ranges b) q)))
                 \<or> (covered (ranges a) r \<and> covered (ranges b) r
                     \<and> (\<forall>q. covered (ranges a) q \<and> covered (ranges b) q \<longrightarrow> r \<le> q))"
  from h obtain ra rsa where a: "ranges a = ra # rsa" by (cases "ranges a") auto
  from h obtain rb rsb where b: "ranges b = rb # rsb" by (cases "ranges b") auto
  have ge_a: "\<And>q. covered (ranges a) q \<Longrightarrow> start a \<le> q"
    using covered_ge_start[of ra rsa] h a by (simp add: start_def)
  have ge_b: "\<And>q. covered (ranges b) q \<Longrightarrow> start b \<le> q"
    using covered_ge_start[of rb rsb] h b by (simp add: start_def)
  have lt_a: "\<And>q. covered (ranges a) q \<Longrightarrow> q < end' a"
  proof -
    fix q assume "covered (ranges a) q"
    then obtain i where i: "i < length (ranges a)" "contains (ranges a ! i) q" by (auto simp: covered_nth)
    have l: "last (ranges a) = ranges a ! (length (ranges a) - 1)" using h by (simp add: last_conv_nth)
    show "q < end' a"
    proof (cases "i = length (ranges a) - 1")
      case True with i l show ?thesis by (simp add: end'_def contains_def)
    next
      case False
      with i have lt: "i < length (ranges a) - 1" by simp
      have n: "length (ranges a) - 1 < length (ranges a)" using i by simp
      have sep: "separated (ranges a)" using h by simp
      have "lr_end (ranges a ! i) < lr_start (ranges a ! (length (ranges a) - 1))"
        by (rule separated_nth(2)[OF sep lt n])
      moreover have "lr_start (ranges a ! (length (ranges a) - 1))
                     < lr_end (ranges a ! (length (ranges a) - 1))"
        by (rule separated_nth(1)[OF sep n])
      moreover have "q < lr_end (ranges a ! i)" using i(2) by (simp add: contains_def)
      ultimately show ?thesis unfolding end'_def l by linarith
    qed
  qed
  show "\<exists>r. nextIntersect a b = Some r \<and> ?P r"
  proof (cases "end' a \<le> start b")
    case True
    have "\<And>q. \<not> (covered (ranges a) q \<and> covered (ranges b) q)"
      using lt_a ge_b True by (meson leD le_trans)
    with True h g show ?thesis by (auto simp: nextIntersect_def)
  next
    case False
    from findRange_spec[of b "start a"] h obtain k where
      k: "findRange b (start a) = Some k" "k \<le> length (ranges b)"
         "\<forall>i. i < k \<longrightarrow> lr_end (ranges b ! i) \<le> start a"
         "k < length (ranges b) \<longrightarrow> start a < lr_end (ranges b ! k)" by blast
    have "k \<noteq> length (ranges b)"
    proof
      assume e: "k = length (ranges b)"
      have "last (ranges b) = ranges b ! (length (ranges b) - 1)" using h by (simp add: last_conv_nth)
      moreover have "length (ranges b) - 1 < k" using e h by simp
      ultimately have "end' b \<le> start a" using k(3) by (simp add: end'_def)
      with g show False by simp
    qed
    with k(2) have kl: "k < length (ranges b)" by simp
    then have ne: "drop k (ranges b) \<noteq> []" by simp
    have sd: "separated (drop k (ranges b))" using h separated_drop by blast
    from nextIntersect_loop_correct[OF _ sd _ ne, of "ranges a"] h obtain r where
      r: "nextIntersect_loop (ranges a) (drop k (ranges b)) = Some r"
         "(r = kMaxPos \<and> (\<forall>q. \<not> (covered (ranges a) q \<and> covered (drop k (ranges b)) q)))
          \<or> (covered (ranges a) r \<and> covered (drop k (ranges b)) r
              \<and> (\<forall>q. covered (ranges a) q \<and> covered (drop k (ranges b)) q \<longrightarrow> r \<le> q))"
      by blast
    have eqv: "\<And>q. covered (ranges a) q \<Longrightarrow> covered (drop k (ranges b)) q \<longleftrightarrow> covered (ranges b) q"
      using covered_drop[OF k(3)] ge_a by blast
    have "nextIntersect a b = Some r" using h g False k(1) r(1) by (auto simp: nextIntersect_def)
    moreover have "?P r" using r(2) eqv by blast
    ultimately show ?thesis by blast
  qed
qed

theorem nextIntersect_spec_witness:
  "\<not> fixed ex_a \<and> separated (ranges ex_a) \<and> separated (ranges ex_fixed) \<and> ranges ex_a \<noteq> []
   \<and> ranges ex_fixed \<noteq> [] \<and> fixed ex_fixed \<and> start ex_a < end' ex_fixed
   \<and> nextIntersect ex_a ex_fixed = Some 6
   \<and> covered (ranges ex_a) 6 \<and> covered (ranges ex_fixed) 6
   \<and> \<not> (\<exists>q. covered (ranges ex_a) q \<and> covered (ranges ex_fixed) q \<and> q < 6)"
proof -
  have 1: "\<not> fixed ex_a \<and> separated (ranges ex_a) \<and> separated (ranges ex_fixed) \<and> ranges ex_a \<noteq> []
   \<and> ranges ex_fixed \<noteq> []" by (simp add: ex_ivl_defs)
  have 2: "\<not> (parent ex_a = None \<and> parent ex_fixed = None \<and> \<not> fixed ex_fixed) \<and> start ex_a < end' ex_fixed"
    by (simp add: ex_ivl_defs)
  have 3: "nextIntersect ex_a ex_fixed = Some 6"
    by (simp add: nextIntersect_def findRange_def findRange_loop.simps ex_ivl_defs)
  have 4: "6 \<noteq> kMaxPos" by (simp add: kMaxPos_def)
  from nextIntersect_spec[of ex_a ex_fixed] 1 2 3 4
  have 5: "covered (ranges ex_a) 6 \<and> covered (ranges ex_fixed) 6
           \<and> (\<forall>q. covered (ranges ex_a) q \<and> covered (ranges ex_fixed) q \<longrightarrow> 6 \<le> q)"
    by simp
  then have "\<not> (\<exists>q. covered (ranges ex_a) q \<and> covered (ranges ex_fixed) q \<and> q < 6)"
    by (meson not_less)
  with 1 2 3 5 show ?thesis by (simp add: ex_ivl_defs)
qed

subsection \<open>Splitting an interval\<close>

lemma concat_map_single: "(\<forall>r \<in> set xs. f r = [r]) \<Longrightarrow> concat (map f xs) = xs"
  by (induction xs) auto

lemma concat_map_nil: "(\<forall>r \<in> set xs. f r = []) \<Longrightarrow> concat (map f xs) = []"
  by (induction xs) auto

lemma findUse_spec:
  assumes "uses_sorted (uses ivl)"
  shows "\<exists>j. findUse ivl p = Some j \<and> j \<le> length (uses ivl)
           \<and> (\<forall>i. i < j \<longrightarrow> u_pos (uses ivl ! i) \<le> p)
           \<and> ((j < length (uses ivl) \<and> u_pos (uses ivl ! j) = p)
                \<or> (\<forall>i. i < j \<longrightarrow> u_pos (uses ivl ! i) < p))"
proof (cases "findUse_loop (uses ivl) p 0 (length (uses ivl))")
  case (Found m)
  from findUse_loop_Found[OF Found] have m: "m < length (uses ivl)" "u_pos (uses ivl ! m) = p" by auto
  have "\<forall>i. i < m \<longrightarrow> u_pos (uses ivl ! i) \<le> p"
    using uses_sorted_nth[OF assms _ m(1)] m(2) by auto
  with Found m show ?thesis by (auto simp: findUse_def)
next
  case (NotFound k)
  from findUse_loop_NotFound[OF NotFound assms]
  have k: "k \<le> length (uses ivl)" "\<forall>i. i < k \<longrightarrow> u_pos (uses ivl ! i) < p"
    "\<forall>i. k \<le> i \<and> i < length (uses ivl) \<longrightarrow> p < u_pos (uses ivl ! i)" by auto
  have "k = length (uses ivl) \<or> p < u_pos (uses ivl ! k)" using k(1,3) by auto
  moreover have "\<forall>i. i < k \<longrightarrow> u_pos (uses ivl ! i) \<le> p" using k(2) by (simp add: less_imp_le)
  ultimately show ?thesis using NotFound k by (auto simp: findUse_def)
qed

lemma sorted_filter_takeWhile:
  assumes "uses_sorted us" "\<And>u v. u_pos u \<le> u_pos v \<Longrightarrow> P v \<Longrightarrow> P u"
  shows "filter P us = takeWhile P us \<and> filter (\<lambda>u. \<not> P u) us = dropWhile P us"
  using assms(1)
proof (induction us)
  case Nil
  show ?case by simp
next
  case (Cons u us)
  from Cons.prems have s: "uses_sorted us" and le: "\<forall>v \<in> set us. u_pos u \<le> u_pos v"
    by (auto simp: uses_sorted_def)
  show ?case
  proof (cases "P u")
    case True
    with Cons.IH[OF s] show ?thesis by simp
  next
    case False
    have "\<forall>v \<in> set us. \<not> P v" using le False assms(2) by blast
    then have "filter P us = []" "filter (\<lambda>u. \<not> P u) us = us" by (auto simp: filter_empty_conv filter_id_conv)
    with False show ?thesis by simp
  qed
qed

lemma advance_uses:
  assumes "\<forall>i. i < j \<longrightarrow> P (us ! i)" "j \<le> length us"
  shows "j + length (takeWhile P (drop j us)) = length (takeWhile P us)"
proof -
  have "\<forall>x \<in> set (take j us). P x"
    using assms by (auto simp: in_set_conv_nth)
  then have "takeWhile P (take j us @ drop j us) = take j us @ takeWhile P (drop j us)"
    using takeWhile_append2[of "take j us" P "drop j us"] by blast
  then have "takeWhile P us = take j us @ takeWhile P (drop j us)" by simp
  then have "length (takeWhile P us) = length (take j us) + length (takeWhile P (drop j us))"
    by (metis length_append)
  then show ?thesis using assms(2) by simp
qed

lemma split_uses:
  assumes "uses_sorted us" "\<And>u v. u_pos u \<le> u_pos v \<Longrightarrow> P v \<Longrightarrow> P u"
    "\<forall>i. i < j \<longrightarrow> P (us ! i)" "j \<le> length us"
  shows "take (j + length (takeWhile P (drop j us))) us = filter P us"
    and "drop (j + length (takeWhile P (drop j us))) us = filter (\<lambda>u. \<not> P u) us"
  using sorted_filter_takeWhile[OF assms(1,2)] advance_uses[OF assms(3,4)]
  by (simp_all add: takeWhile_eq_take[symmetric] dropWhile_eq_drop[symmetric])

lemma ranges_before_append: "ranges_before p (xs @ ys) = ranges_before p xs @ ranges_before p ys"
  by (simp add: ranges_before_def)

lemma ranges_from_append: "ranges_from p (xs @ ys) = ranges_from p xs @ ranges_from p ys"
  by (simp add: ranges_from_def)

lemma ranges_below:
  assumes "\<forall>r \<in> set xs. lr_start r < lr_end r \<and> lr_end r \<le> p"
  shows "ranges_before p xs = xs" and "ranges_from p xs = []"
proof -
  show "ranges_before p xs = xs"
    unfolding ranges_before_def using assms by (intro concat_map_single) auto
  show "ranges_from p xs = []"
    unfolding ranges_from_def using assms by (intro concat_map_nil) auto
qed

lemma ranges_above:
  assumes "\<forall>r \<in> set xs. lr_start r < lr_end r \<and> p \<le> lr_start r"
  shows "ranges_before p xs = []" and "ranges_from p xs = xs"
proof -
  show "ranges_before p xs = []"
    unfolding ranges_before_def using assms by (intro concat_map_nil) auto
  show "ranges_from p xs = xs"
    unfolding ranges_from_def using assms by (intro concat_map_single) auto
qed

lemma split_parts:
  assumes sep: "separated rs" and k: "k < length rs"
    and lo: "\<forall>i. i < k \<longrightarrow> lr_end (rs ! i) \<le> p"
    and hi: "\<forall>i. k < i \<and> i < length rs \<longrightarrow> p < lr_start (rs ! i)"
  shows "\<forall>r \<in> set (take k rs). lr_start r < lr_end r \<and> lr_end r \<le> p"
    and "\<forall>r \<in> set (drop (Suc k) rs). lr_start r < lr_end r \<and> p \<le> lr_start r"
proof -
  show "\<forall>r \<in> set (take k rs). lr_start r < lr_end r \<and> lr_end r \<le> p"
  proof
    fix r assume "r \<in> set (take k rs)"
    then obtain i where i: "i < k" "i < length rs" "r = rs ! i"
      by (auto simp: in_set_conv_nth)
    with lo separated_nth(1)[OF sep, of i] show "lr_start r < lr_end r \<and> lr_end r \<le> p" by simp
  qed
  show "\<forall>r \<in> set (drop (Suc k) rs). lr_start r < lr_end r \<and> p \<le> lr_start r"
  proof
    fix r assume "r \<in> set (drop (Suc k) rs)"
    then obtain i where i: "i < length rs - Suc k" "r = rs ! (Suc k + i)"
      by (auto simp: in_set_conv_nth)
    then have "k < Suc k + i \<and> Suc k + i < length rs" by auto
    with hi separated_nth(1)[OF sep, of "Suc k + i"] i
    show "lr_start r < lr_end r \<and> p \<le> lr_start r" by (simp add: less_imp_le)
  qed
qed

lemma split_cut:
  assumes sep: "separated rs" and k: "k < length rs"
    and lo: "\<forall>i. i < k \<longrightarrow> lr_end (rs ! i) \<le> p"
    and hi: "\<forall>i. k < i \<and> i < length rs \<longrightarrow> p < lr_start (rs ! i)"
    and c: "lr_start (rs ! k) < p" "p < lr_end (rs ! k)"
  shows "take (k + 1) (list_update rs k ((rs ! k) \<lparr> lr_end := p \<rparr>)) = ranges_before p rs"
    and "[\<lparr> lr_start = p, lr_end = lr_end (rs ! k) \<rparr>]
           @ drop (k + 1) (list_update rs k ((rs ! k) \<lparr> lr_end := p \<rparr>)) = ranges_from p rs"
proof -
  note parts = split_parts[OF sep k lo hi]
  have dec: "rs = take k rs @ [rs ! k] @ drop (Suc k) rs" using k by (simp add: id_take_nth_drop)
  have b: "ranges_before p [rs ! k] = [(rs ! k) \<lparr> lr_end := p \<rparr>]" using c by (simp add: ranges_before_def)
  have f: "ranges_from p [rs ! k] = [\<lparr> lr_start = p, lr_end = lr_end (rs ! k) \<rparr>]"
    using c by (simp add: ranges_from_def)
  have "ranges_before p rs = take k rs @ [(rs ! k) \<lparr> lr_end := p \<rparr>]"
    by (subst dec) (simp only: ranges_before_append ranges_below(1)[OF parts(1)] ranges_above(1)[OF parts(2)] b append_Nil2)
  moreover have "take (k + 1) (list_update rs k ((rs ! k) \<lparr> lr_end := p \<rparr>)) = take k rs @ [(rs ! k) \<lparr> lr_end := p \<rparr>]"
    using k by (simp add: take_Suc_conv_app_nth)
  ultimately show "take (k + 1) (list_update rs k ((rs ! k) \<lparr> lr_end := p \<rparr>)) = ranges_before p rs" by simp
  have "ranges_from p rs = [\<lparr> lr_start = p, lr_end = lr_end (rs ! k) \<rparr>] @ drop (Suc k) rs"
    by (subst dec) (simp only: ranges_from_append ranges_below(2)[OF parts(1)] ranges_above(2)[OF parts(2)] f append_Nil)
  then show "[\<lparr> lr_start = p, lr_end = lr_end (rs ! k) \<rparr>]
           @ drop (k + 1) (list_update rs k ((rs ! k) \<lparr> lr_end := p \<rparr>)) = ranges_from p rs"
    by simp
qed

lemma split_nocut:
  assumes sep: "separated rs" and k: "k < length rs"
    and lo: "\<forall>i. i < k \<longrightarrow> lr_end (rs ! i) \<le> p"
    and hi: "\<forall>i. k < i \<and> i < length rs \<longrightarrow> p < lr_start (rs ! i)"
    and c: "p \<le> lr_start (rs ! k)"
  shows "take k rs = ranges_before p rs" and "drop k rs = ranges_from p rs"
proof -
  note parts = split_parts[OF sep k lo hi]
  have ne: "lr_start (rs ! k) < lr_end (rs ! k)" by (rule separated_nth(1)[OF sep k])
  have dec: "rs = take k rs @ [rs ! k] @ drop (Suc k) rs" using k by (simp add: id_take_nth_drop)
  have b: "ranges_before p [rs ! k] = []" using c ne by (simp add: ranges_before_def)
  have f: "ranges_from p [rs ! k] = [rs ! k]" using c by (simp add: ranges_from_def)
  have "ranges_before p rs = take k rs"
    by (subst dec) (simp only: ranges_before_append ranges_below(1)[OF parts(1)] ranges_above(1)[OF parts(2)] b append_Nil2)
  then show "take k rs = ranges_before p rs" by simp
  have "ranges_from p rs = [rs ! k] @ drop (Suc k) rs"
    by (subst dec) (simp only: ranges_from_append ranges_below(2)[OF parts(1)] ranges_above(2)[OF parts(2)] f append_Nil)
  then show "drop k rs = ranges_from p rs" using k by (simp add: Cons_nth_drop_Suc)
qed

lemma findUse_cong: "uses a = uses b \<Longrightarrow> findUse a p = findUse b p"
  by (simp add: findUse_def split: search.splits)

lemma split_unfold:
  assumes "this < length h" "start (h ! this) < p" "p < end' (h ! this)"
    "leader this (h ! this) < length h"
    "findRange (h ! this) p = Some k" "k < length (ranges (h ! this))"
    "R1 = (if p > lr_start (ranges (h ! this) ! k)
           then take (k + 1) (list_update (ranges (h ! this)) k ((ranges (h ! this) ! k) \<lparr> lr_end := p \<rparr>))
           else take k (ranges (h ! this)))"
    "R2 = (if p > lr_start (ranges (h ! this) ! k)
           then [\<lparr> lr_start = p, lr_end = lr_end (ranges (h ! this) ! k) \<rparr>]
                 @ drop (k + 1) (list_update (ranges (h ! this)) k ((ranges (h ! this) ! k) \<lparr> lr_end := p \<rparr>))
           else drop k (ranges (h ! this)))"
    "findUse (h ! this) (lr_end (last R1)) = Some j"
    "stay = (if keep_uses then (\<lambda>u. u_pos u \<le> lr_end (last R1)) else (\<lambda>u. u_pos u < lr_start (hd R2)))"
    "j1 = j + length (takeWhile stay (drop j (uses (h ! this))))"
  shows "split h this p keep_uses =
     Some (list_update h this ((h ! this) \<lparr> next_ivl := Some (length h), ranges := R1,
                                         uses := take j1 (uses (h ! this)) \<rparr>)
           @ [(make_child (leader this (h ! this)) (h ! leader this (h ! this)))
                \<lparr> next_ivl := next_ivl (h ! this), ranges := R2, uses := drop j1 (uses (h ! this)) \<rparr>],
           length h)"
proof -
  have fu: "\<And>x y z. findUse ((h ! this) \<lparr> next_ivl := x, ranges := y \<rparr>) z = findUse (h ! this) z"
    by (simp add: findUse_def split: search.splits)
  show ?thesis
  proof (cases "p > lr_start (ranges (h ! this) ! k)")
    case True
    then show ?thesis
      using assms(1-6,9) unfolding assms(7,8,10,11)
      by (simp add: split_def Let_def fu start_def end'_def)
  next
    case False
    then show ?thesis
      using assms(1-6,9) unfolding assms(7,8,10,11)
      by (simp add: split_def Let_def fu start_def end'_def)
  qed
qed

lemmas split_eval = split_def Let_def leader_def make_child_def make_Interval_def start_def end'_def
  findRange_def findRange_loop.simps findUse_def findUse_loop.simps

text \<open>
  C2 as stated fails.  \<open>ex_hole\<close> has the ranges [0,6) and [8,10) and uses at 0, 6
  and 10.  Split at 6 without \<open>keep_uses\<close>, the child gets the range [8,10) and the
  use at 10 only: the use at 6, whose position is \<open>\<ge> pos\<close>, stays with the first part,
  because the loop compares with the child's start (8), not with \<open>pos\<close>.
\<close>

theorem split_counterexample:
  "split [ex_hole] 0 6 False =
     Some ([ex_hole \<lparr> next_ivl := Some 1, ranges := [\<lparr> lr_start = 0, lr_end = 6 \<rparr>],
                      uses := [\<lparr> u_kind = Gpr, u_pos = 0, u_hint = None \<rparr>,
                               \<lparr> u_kind = Gpr, u_pos = 6, u_hint = None \<rparr>] \<rparr>,
            (make_child 0 ex_hole) \<lparr> ranges := [\<lparr> lr_start = 8, lr_end = 10 \<rparr>],
                      uses := [\<lparr> u_kind = Gpr, u_pos = 10, u_hint = None \<rparr>] \<rparr>], 1)
   \<and> filter (\<lambda>u. 6 \<le> u_pos u) (uses ex_hole)
       = [\<lparr> u_kind = Gpr, u_pos = 6, u_hint = None \<rparr>, \<lparr> u_kind = Gpr, u_pos = 10, u_hint = None \<rparr>]
   \<and> start ex_hole < 6 \<and> 6 < end' ex_hole \<and> separated (ranges ex_hole)
   \<and> uses_sorted (uses ex_hole)"
  by (simp add: ex_hole_def split_eval uses_sorted_def)

text \<open>
  Two uses at the split position, inside a range: \<open>findUse\<close>'s binary search lands on
  the second of them, and the first stays with the first part.
\<close>

lemma split_duplicate_uses:
  "split [ex_dup] 0 6 False =
     Some ([ex_dup \<lparr> next_ivl := Some 1, ranges := [\<lparr> lr_start = 2, lr_end = 6 \<rparr>],
                      uses := [\<lparr> u_kind = Gpr, u_pos = 2, u_hint = None \<rparr>,
                               \<lparr> u_kind = Gpr, u_pos = 6, u_hint = None \<rparr>] \<rparr>,
            (make_child 0 ex_dup) \<lparr> ranges := [\<lparr> lr_start = 6, lr_end = 10 \<rparr>],
                      uses := [\<lparr> u_kind = Any, u_pos = 6, u_hint = None \<rparr>,
                               \<lparr> u_kind = Gpr, u_pos = 10, u_hint = None \<rparr>] \<rparr>], 1)"
  by (simp add: ex_dup_def split_eval)

text \<open>
  C2, amended.  For a well-formed interval with \<open>start < pos < end\<close>, \<open>split\<close>
  returns a new child, linked after \<open>this\<close>, whose ranges are the portion of the
  ranges at positions \<open>\<ge> pos\<close> (a straddling range is cut at \<open>pos\<close>), and the first
  part keeps the portion below \<open>pos\<close>; both are non-empty.  With \<open>keep_uses\<close> the
  child holds exactly the uses strictly above the first part's new end.  Without it
  the child holds exactly the uses at or above the child's start, which is \<open>pos\<close> when
  a range contains \<open>pos\<close> and the start of the next range otherwise, provided at most
  one use sits at \<open>pos\<close>.  The first part keeps the remaining uses.
\<close>

theorem split_spec:
  "this < length h \<and> leader this (h ! this) < length h \<and> ranges (h ! this) \<noteq> []
   \<and> separated (ranges (h ! this)) \<and> uses_sorted (uses (h ! this))
   \<and> start (h ! this) < p \<and> p < end' (h ! this)
   \<longrightarrow> (\<exists>h'. split h this p keep_uses = Some (h', length h)
         \<and> length h' = length h + 1
         \<and> (\<forall>i. i < length h \<and> i \<noteq> this \<longrightarrow> h' ! i = h ! i)
         \<and> next_ivl (h' ! this) = Some (length h)
         \<and> next_ivl (h' ! length h) = next_ivl (h ! this)
         \<and> parent (h' ! length h) = Some (leader this (h ! this))
         \<and> ranges (h' ! this) = ranges_before p (ranges (h ! this))
         \<and> ranges (h' ! length h) = ranges_from p (ranges (h ! this))
         \<and> ranges (h' ! this) \<noteq> [] \<and> ranges (h' ! length h) \<noteq> []
         \<and> end' (h' ! this) \<le> p \<and> p \<le> start (h' ! length h)
         \<and> (covered (ranges (h ! this)) p \<longrightarrow> start (h' ! length h) = p)
         \<and> uses (h' ! this) @ uses (h' ! length h) = uses (h ! this)
         \<and> (keep_uses \<longrightarrow>
               uses (h' ! length h) = filter (\<lambda>u. end' (h' ! this) < u_pos u) (uses (h ! this))
               \<and> uses (h' ! this) = filter (\<lambda>u. u_pos u \<le> end' (h' ! this)) (uses (h ! this)))
         \<and> (\<not> keep_uses \<and> length (filter (\<lambda>u. u_pos u = p) (uses (h ! this))) \<le> 1 \<longrightarrow>
               uses (h' ! length h) = filter (\<lambda>u. start (h' ! length h) \<le> u_pos u) (uses (h ! this))
               \<and> uses (h' ! this) = filter (\<lambda>u. u_pos u < start (h' ! length h)) (uses (h ! this))))"
proof
  assume H: "this < length h \<and> leader this (h ! this) < length h \<and> ranges (h ! this) \<noteq> []
   \<and> separated (ranges (h ! this)) \<and> uses_sorted (uses (h ! this))
   \<and> start (h ! this) < p \<and> p < end' (h ! this)"
  define rs where "rs = ranges (h ! this)"
  define us where "us = uses (h ! this)"
  have sep: "separated rs" and ne: "rs \<noteq> []" and srt: "uses_sorted us"
    and st: "lr_start (hd rs) < p" and en: "p < lr_end (last rs)"
    using H by (auto simp: rs_def us_def start_def end'_def)
  from findRange_spec[of "h ! this" p] H obtain k where
    k: "findRange (h ! this) p = Some k" "k \<le> length rs"
       "\<forall>i. i < k \<longrightarrow> lr_end (rs ! i) \<le> p"
       "k < length rs \<longrightarrow> p < lr_end (rs ! k)"
       "\<forall>i. k < i \<and> i < length rs \<longrightarrow> p < lr_start (rs ! i)"
    unfolding rs_def by blast
  have kl: "k < length rs"
  proof (rule ccontr)
    assume "\<not> k < length rs"
    with k(2) have "k = length rs" by simp
    then have "lr_end (rs ! (length rs - 1)) \<le> p" using k(3) ne by simp
    with en ne show False by (simp add: last_conv_nth)
  qed
  define cut where "cut = (p > lr_start (rs ! k))"
  define R1 where "R1 = (if cut then take (k + 1) (list_update rs k ((rs ! k) \<lparr> lr_end := p \<rparr>)) else take k rs)"
  define R2 where "R2 = (if cut then [\<lparr> lr_start = p, lr_end = lr_end (rs ! k) \<rparr>]
                 @ drop (k + 1) (list_update rs k ((rs ! k) \<lparr> lr_end := p \<rparr>)) else drop k rs)"
  have k0: "\<not> cut \<Longrightarrow> 0 < k"
  proof (rule ccontr)
    assume "\<not> cut" "\<not> 0 < k"
    then have "p \<le> lr_start (rs ! 0)" by (simp add: cut_def)
    with st ne show False by (simp add: hd_conv_nth)
  qed
  have R1b: "R1 = ranges_before p rs"
    using split_cut(1)[OF sep kl k(3) k(5)] split_nocut(1)[OF sep kl k(3) k(5)] k(4) kl
    by (auto simp: R1_def cut_def)
  have R2f: "R2 = ranges_from p rs"
    using split_cut(2)[OF sep kl k(3) k(5)] split_nocut(2)[OF sep kl k(3) k(5)] k(4) kl
    by (auto simp: R2_def cut_def)
  have R1ne: "R1 \<noteq> []" using kl k0 ne by (auto simp: R1_def)
  have R2ne: "R2 \<noteq> []" using kl by (auto simp: R2_def)
  have e1: "lr_end (last R1) = (if cut then p else lr_end (rs ! (k - 1)))"
  proof (cases cut)
    case True
    have "R1 = take k rs @ [(rs ! k) \<lparr> lr_end := p \<rparr>]" using True kl by (simp add: R1_def take_Suc_conv_app_nth)
    with True show ?thesis by simp
  next
    case False
    from False k0 have kp: "0 < k" by simp
    then have "take k rs \<noteq> []" using kl by auto
    then have "last (take k rs) = take k rs ! (length (take k rs) - 1)" by (rule last_conv_nth)
    also have "\<dots> = rs ! (k - 1)" using kp kl by (simp add: min_def)
    finally have "last R1 = rs ! (k - 1)" using False by (simp add: R1_def)
    with False show ?thesis by simp
  qed
  have c0: "lr_start (hd R2) = (if cut then p else lr_start (rs ! k))"
    using kl by (auto simp: R2_def hd_drop_conv_nth)
  have e1p: "lr_end (last R1) \<le> p" using e1 k(3) k0 by (cases cut) auto
  have pc0: "p \<le> lr_start (hd R2)" using c0 by (cases cut) (auto simp: cut_def)
  have e1c0: "\<not> cut \<Longrightarrow> lr_end (last R1) < lr_start (hd R2)"
    using e1 c0 k0 kl separated_nth(2)[OF sep, of "k - 1" k] by auto
  have cov: "covered rs p \<Longrightarrow> lr_start (hd R2) = p"
  proof -
    assume "covered rs p"
    then obtain i where i: "i < length rs" "lr_start (rs ! i) \<le> p" "p < lr_end (rs ! i)"
      by (auto simp: covered_nth contains_def)
    have "i = k"
    proof (rule ccontr)
      assume "i \<noteq> k"
      then consider "i < k" | "k < i" by linarith
      then show False using k(3,5) i by cases auto
    qed
    with i c0 show ?thesis by (auto simp: cut_def)
  qed
  from findUse_spec[of "h ! this" "lr_end (last R1)"] H obtain j where
    j: "findUse (h ! this) (lr_end (last R1)) = Some j" "j \<le> length us"
       "\<forall>i. i < j \<longrightarrow> u_pos (us ! i) \<le> lr_end (last R1)"
       "(j < length us \<and> u_pos (us ! j) = lr_end (last R1))
          \<or> (\<forall>i. i < j \<longrightarrow> u_pos (us ! i) < lr_end (last R1))"
    unfolding us_def by blast
  define stay :: "Use \<Rightarrow> bool" where "stay = (if keep_uses then (\<lambda>u. u_pos u \<le> lr_end (last R1))
                             else (\<lambda>u. u_pos u < lr_start (hd R2)))"
  define j1 where "j1 = j + length (takeWhile stay (drop j us))"
  define this2 where "this2 = (h ! this) \<lparr> next_ivl := Some (length h), ranges := R1, uses := take j1 us \<rparr>"
  define child2 where "child2 = (make_child (leader this (h ! this)) (h ! leader this (h ! this)))
                \<lparr> next_ivl := next_ivl (h ! this), ranges := R2, uses := drop j1 us \<rparr>"
  define h' where "h' = list_update h this this2 @ [child2]"
  have sp: "split h this p keep_uses = Some (h', length h)"
    unfolding h'_def this2_def child2_def us_def
    by (rule split_unfold[where k = k and j = j and ?R1.0 = R1 and ?R2.0 = R2 and stay = stay])
       (use H k(1) kl j(1) in \<open>auto simp: R1_def R2_def cut_def rs_def stay_def j1_def us_def\<close>)
  have nth_this: "h' ! this = this2" using H by (simp add: h'_def nth_append)
  have nth_child: "h' ! length h = child2" by (simp add: h'_def nth_append)
  have other: "\<forall>i. i < length h \<and> i \<noteq> this \<longrightarrow> h' ! i = h ! i" by (simp add: h'_def nth_append)
  have keep: "keep_uses \<Longrightarrow> drop j1 us = filter (\<lambda>u. lr_end (last R1) < u_pos u) us
                \<and> take j1 us = filter (\<lambda>u. u_pos u \<le> lr_end (last R1)) us"
  proof -
    assume ku: keep_uses
    then have st': "stay = (\<lambda>u. u_pos u \<le> lr_end (last R1))" by (simp add: stay_def)
    have "take j1 us = filter stay us" "drop j1 us = filter (\<lambda>u. \<not> stay u) us"
      unfolding j1_def using split_uses[OF srt _ _ j(2), of stay] j(3) by (auto simp: st')
    then show ?thesis by (simp add: st' not_le)
  qed
  have nokeep: "\<not> keep_uses \<Longrightarrow> length (filter (\<lambda>u. u_pos u = p) us) \<le> 1 \<Longrightarrow>
                drop j1 us = filter (\<lambda>u. lr_start (hd R2) \<le> u_pos u) us
                \<and> take j1 us = filter (\<lambda>u. u_pos u < lr_start (hd R2)) us"
  proof -
    assume ku: "\<not> keep_uses" and one: "length (filter (\<lambda>u. u_pos u = p) us) \<le> 1"
    then have st': "stay = (\<lambda>u. u_pos u < lr_start (hd R2))" by (simp add: stay_def)
    have below: "\<forall>i. i < j \<longrightarrow> u_pos (us ! i) < lr_start (hd R2)"
    proof (cases cut)
      case False
      with e1c0 j(3) show ?thesis by (meson le_less_trans)
    next
      case True
      then have ep: "lr_end (last R1) = p" "lr_start (hd R2) = p" using e1 c0 by auto
      show ?thesis
      proof (intro allI impI)
        fix i assume i: "i < j"
        show "u_pos (us ! i) < lr_start (hd R2)"
        proof (rule ccontr)
          assume "\<not> u_pos (us ! i) < lr_start (hd R2)"
          with j(3) i ep have ip: "u_pos (us ! i) = p" by (simp add: le_antisym not_less)
          with j(4) i ep have jp: "j < length us" "u_pos (us ! j) = p" by auto
          have "us = take i us @ us ! i # drop (Suc i) us" using i jp(1) by (simp add: id_take_nth_drop)
          moreover have "us ! j \<in> set (drop (Suc i) us)"
            using i jp(1) by (auto simp: in_set_conv_nth intro!: exI[of _ "j - Suc i"])
          ultimately have "2 \<le> length (filter (\<lambda>u. u_pos u = p) us)"
          proof -
            assume dec: "us = take i us @ us ! i # drop (Suc i) us"
              and mem: "us ! j \<in> set (drop (Suc i) us)"
            have "filter (\<lambda>u. u_pos u = p) (drop (Suc i) us) \<noteq> []"
              using mem jp(2) by (auto simp: filter_empty_conv)
            then have "1 \<le> length (filter (\<lambda>u. u_pos u = p) (drop (Suc i) us))"
              by (simp add: Suc_leI)
            moreover have "length (filter (\<lambda>u. u_pos u = p) us)
                = length (filter (\<lambda>u. u_pos u = p) (take i us))
                + (1 + length (filter (\<lambda>u. u_pos u = p) (drop (Suc i) us)))"
              by (subst dec) (simp add: ip)
            ultimately show ?thesis by linarith
          qed
          with one show False by simp
        qed
      qed
    qed
    have "take j1 us = filter stay us" "drop j1 us = filter (\<lambda>u. \<not> stay u) us"
      unfolding j1_def using split_uses[OF srt _ _ j(2), of stay] below by (auto simp: st')
    then show ?thesis by (simp add: st' not_less)
  qed
  show "\<exists>h'. split h this p keep_uses = Some (h', length h)
         \<and> length h' = length h + 1
         \<and> (\<forall>i. i < length h \<and> i \<noteq> this \<longrightarrow> h' ! i = h ! i)
         \<and> next_ivl (h' ! this) = Some (length h)
         \<and> next_ivl (h' ! length h) = next_ivl (h ! this)
         \<and> parent (h' ! length h) = Some (leader this (h ! this))
         \<and> ranges (h' ! this) = ranges_before p (ranges (h ! this))
         \<and> ranges (h' ! length h) = ranges_from p (ranges (h ! this))
         \<and> ranges (h' ! this) \<noteq> [] \<and> ranges (h' ! length h) \<noteq> []
         \<and> end' (h' ! this) \<le> p \<and> p \<le> start (h' ! length h)
         \<and> (covered (ranges (h ! this)) p \<longrightarrow> start (h' ! length h) = p)
         \<and> uses (h' ! this) @ uses (h' ! length h) = uses (h ! this)
         \<and> (keep_uses \<longrightarrow>
               uses (h' ! length h) = filter (\<lambda>u. end' (h' ! this) < u_pos u) (uses (h ! this))
               \<and> uses (h' ! this) = filter (\<lambda>u. u_pos u \<le> end' (h' ! this)) (uses (h ! this)))
         \<and> (\<not> keep_uses \<and> length (filter (\<lambda>u. u_pos u = p) (uses (h ! this))) \<le> 1 \<longrightarrow>
               uses (h' ! length h) = filter (\<lambda>u. start (h' ! length h) \<le> u_pos u) (uses (h ! this))
               \<and> uses (h' ! this) = filter (\<lambda>u. u_pos u < start (h' ! length h)) (uses (h ! this)))"
    apply (rule exI[of _ h'])
    unfolding nth_this nth_child
    using sp other R1b R2f R1ne R2ne e1p pc0 cov keep nokeep
    by (simp add: h'_def this2_def child2_def make_child_def start_def end'_def rs_def[symmetric] us_def[symmetric])
qed

theorem split_spec_witness:
  "start ex_hole < 5 \<and> 5 < end' ex_hole \<and> separated (ranges ex_hole) \<and> uses_sorted (uses ex_hole)
   \<and> length (filter (\<lambda>u. u_pos u = 5) (uses ex_hole)) \<le> 1
   \<and> (\<exists>h'. split [ex_hole] 0 5 False = Some (h', 1)
         \<and> ranges (h' ! 0) = [\<lparr> lr_start = 0, lr_end = 5 \<rparr>]
         \<and> ranges (h' ! 1) = [\<lparr> lr_start = 5, lr_end = 6 \<rparr>, \<lparr> lr_start = 8, lr_end = 10 \<rparr>]
         \<and> uses (h' ! 0) = [\<lparr> u_kind = Gpr, u_pos = 0, u_hint = None \<rparr>]
         \<and> uses (h' ! 1) = [\<lparr> u_kind = Gpr, u_pos = 6, u_hint = None \<rparr>,
                             \<lparr> u_kind = Gpr, u_pos = 10, u_hint = None \<rparr>])
   \<and> (\<exists>h'. split [ex_hole] 0 6 True = Some (h', 1)
         \<and> ranges (h' ! 0) = [\<lparr> lr_start = 0, lr_end = 6 \<rparr>]
         \<and> ranges (h' ! 1) = [\<lparr> lr_start = 8, lr_end = 10 \<rparr>]
         \<and> uses (h' ! 0) = [\<lparr> u_kind = Gpr, u_pos = 0, u_hint = None \<rparr>,
                             \<lparr> u_kind = Gpr, u_pos = 6, u_hint = None \<rparr>]
         \<and> uses (h' ! 1) = [\<lparr> u_kind = Gpr, u_pos = 10, u_hint = None \<rparr>])"
proof -
  have pre5: "0 < length [ex_hole] \<and> leader 0 ([ex_hole] ! 0) < length [ex_hole]
     \<and> ranges ([ex_hole] ! 0) \<noteq> [] \<and> separated (ranges ([ex_hole] ! 0))
     \<and> uses_sorted (uses ([ex_hole] ! 0)) \<and> start ([ex_hole] ! 0) < 5 \<and> 5 < end' ([ex_hole] ! 0)"
    by (simp add: ex_hole_def leader_def make_Interval_def start_def end'_def uses_sorted_def)
  have pre6: "0 < length [ex_hole] \<and> leader 0 ([ex_hole] ! 0) < length [ex_hole]
     \<and> ranges ([ex_hole] ! 0) \<noteq> [] \<and> separated (ranges ([ex_hole] ! 0))
     \<and> uses_sorted (uses ([ex_hole] ! 0)) \<and> start ([ex_hole] ! 0) < 6 \<and> 6 < end' ([ex_hole] ! 0)"
    by (simp add: ex_hole_def leader_def make_Interval_def start_def end'_def uses_sorted_def)
  have one: "length (filter (\<lambda>u. u_pos u = 5) (uses ex_hole)) \<le> 1"
    by (simp add: ex_hole_def make_Interval_def)
  from split_spec[of 0 "[ex_hole]" 5 False] pre5 one obtain h5 where
    h5: "split [ex_hole] 0 5 False = Some (h5, 1)"
        "ranges (h5 ! 0) = ranges_before 5 (ranges ex_hole)"
        "ranges (h5 ! 1) = ranges_from 5 (ranges ex_hole)"
        "uses (h5 ! 1) = filter (\<lambda>u. start (h5 ! 1) \<le> u_pos u) (uses ex_hole)"
        "uses (h5 ! 0) = filter (\<lambda>u. u_pos u < start (h5 ! 1)) (uses ex_hole)"
    by auto
  from split_spec[of 0 "[ex_hole]" 6 True] pre6 obtain h6 where
    h6: "split [ex_hole] 0 6 True = Some (h6, 1)"
        "ranges (h6 ! 0) = ranges_before 6 (ranges ex_hole)"
        "ranges (h6 ! 1) = ranges_from 6 (ranges ex_hole)"
        "uses (h6 ! 1) = filter (\<lambda>u. end' (h6 ! 0) < u_pos u) (uses ex_hole)"
        "uses (h6 ! 0) = filter (\<lambda>u. u_pos u \<le> end' (h6 ! 0)) (uses ex_hole)"
    by auto
  have r5: "ranges (h5 ! 0) = [\<lparr> lr_start = 0, lr_end = 5 \<rparr>]"
           "ranges (h5 ! 1) = [\<lparr> lr_start = 5, lr_end = 6 \<rparr>, \<lparr> lr_start = 8, lr_end = 10 \<rparr>]"
    using h5(2,3) by (simp_all add: ranges_before_def ranges_from_def ex_hole_def make_Interval_def)
  have r6: "ranges (h6 ! 0) = [\<lparr> lr_start = 0, lr_end = 6 \<rparr>]"
           "ranges (h6 ! 1) = [\<lparr> lr_start = 8, lr_end = 10 \<rparr>]"
    using h6(2,3) by (simp_all add: ranges_before_def ranges_from_def ex_hole_def make_Interval_def)
  have u5: "uses (h5 ! 0) = [\<lparr> u_kind = Gpr, u_pos = 0, u_hint = None \<rparr>]"
           "uses (h5 ! 1) = [\<lparr> u_kind = Gpr, u_pos = 6, u_hint = None \<rparr>,
                             \<lparr> u_kind = Gpr, u_pos = 10, u_hint = None \<rparr>]"
    using h5(4,5) r5 by (simp_all add: start_def ex_hole_def make_Interval_def)
  have u6: "uses (h6 ! 0) = [\<lparr> u_kind = Gpr, u_pos = 0, u_hint = None \<rparr>,
                             \<lparr> u_kind = Gpr, u_pos = 6, u_hint = None \<rparr>]"
           "uses (h6 ! 1) = [\<lparr> u_kind = Gpr, u_pos = 10, u_hint = None \<rparr>]"
    using h6(4,5) r6 by (simp_all add: end'_def ex_hole_def make_Interval_def)
  show ?thesis using pre5 one h5(1) r5 u5 h6(1) r6 u6 by auto
qed

subsection \<open>Spill slots: assignSpill, assignReg and spill\<close>

lemma scan_slots_None:
  "scan_slots ss lstart s n = None \<longleftrightarrow> (\<forall>i. s \<le> i \<and> i < n \<longrightarrow> lstart < ss ! i)"
proof (induction ss lstart s n rule: scan_slots.induct)
  case (1 ss lstart s n)
  note unf = scan_slots.simps[of ss lstart s n]
  show ?case
  proof (cases "s < n")
    case False
    then show ?thesis by (simp add: unf)
  next
    case lt: True
    show ?thesis
    proof (cases "lstart \<ge> ss ! s")
      case True
      with lt show ?thesis by (auto simp: unf)
    next
      case False
      have "(\<forall>i. s \<le> i \<and> i < n \<longrightarrow> lstart < ss ! i) \<longleftrightarrow> (\<forall>i. s + 1 \<le> i \<and> i < n \<longrightarrow> lstart < ss ! i)"
        using False by (metis Suc_eq_plus1 Suc_leI le_neq_implies_less not_le order_less_imp_le less_eq_Suc_le)
      with "1.IH"[OF lt False] lt False show ?thesis by (simp add: unf)
    qed
  qed
qed

lemma scan_slots_Some:
  "scan_slots ss lstart s n = Some k \<Longrightarrow> s \<le> k \<and> k < n \<and> lstart \<ge> ss ! k"
proof (induction ss lstart s n rule: scan_slots.induct)
  case (1 ss lstart s n)
  note unf = scan_slots.simps[of ss lstart s n]
  from "1.prems" have lt: "s < n" by (auto simp: unf split: if_splits)
  show ?case
  proof (cases "lstart \<ge> ss ! s")
    case True
    with lt "1.prems" show ?thesis by (simp add: unf)
  next
    case False
    with lt "1.prems" have "scan_slots ss lstart (s + 1) n = Some k" by (simp add: unf)
    from "1.IH"[OF lt False this] show ?thesis by simp
  qed
qed

lemma scan_wide_slots_None:
  "scan_wide_slots ss lstart s n = None \<longleftrightarrow>
     (\<forall>j. s + 2 * j < n \<longrightarrow> \<not> (lstart \<ge> ss ! (s + 2 * j) \<and> lstart \<ge> ss ! (s + 2 * j + 1)))"
proof (induction ss lstart s n rule: scan_wide_slots.induct)
  case (1 ss lstart s n)
  note unf = scan_wide_slots.simps[of ss lstart s n]
  show ?case
  proof (cases "s < n")
    case False
    then show ?thesis by (simp add: unf)
  next
    case lt: True
    show ?thesis
    proof (cases "lstart \<ge> ss ! s \<and> lstart \<ge> ss ! (s + 1)")
      case True
      have "\<not> (\<forall>j. s + 2 * j < n \<longrightarrow> \<not> (lstart \<ge> ss ! (s + 2 * j) \<and> lstart \<ge> ss ! (s + 2 * j + 1)))"
        using True lt by (auto intro!: exI[of _ 0])
      with True lt show ?thesis by (simp add: unf)
    next
      case False
      have "(\<forall>j. s + 2 * j < n \<longrightarrow> \<not> (lstart \<ge> ss ! (s + 2 * j) \<and> lstart \<ge> ss ! (s + 2 * j + 1)))
          \<longleftrightarrow> (\<forall>j. s + 2 + 2 * j < n \<longrightarrow> \<not> (lstart \<ge> ss ! (s + 2 + 2 * j) \<and> lstart \<ge> ss ! (s + 2 + 2 * j + 1)))"
        (is "?L \<longleftrightarrow> ?R")
      proof
        assume l: ?L
        show ?R
        proof (intro allI impI)
          fix j assume "s + 2 + 2 * j < n"
          then have "s + 2 * (Suc j) < n" by simp
          with l have "\<not> (lstart \<ge> ss ! (s + 2 * (Suc j)) \<and> lstart \<ge> ss ! (s + 2 * (Suc j) + 1))" by blast
          then show "\<not> (lstart \<ge> ss ! (s + 2 + 2 * j) \<and> lstart \<ge> ss ! (s + 2 + 2 * j + 1))" by (simp add: add.commute add.left_commute)
        qed
      next
        assume r: ?R
        show ?L
        proof (intro allI impI)
          fix j assume j: "s + 2 * j < n"
          show "\<not> (lstart \<ge> ss ! (s + 2 * j) \<and> lstart \<ge> ss ! (s + 2 * j + 1))"
          proof (cases j)
            case 0
            with False show ?thesis by simp
          next
            case (Suc j')
            with j have "s + 2 + 2 * j' < n" by simp
            with r have "\<not> (lstart \<ge> ss ! (s + 2 + 2 * j') \<and> lstart \<ge> ss ! (s + 2 + 2 * j' + 1))" by blast
            with Suc show ?thesis by (simp add: add.commute add.left_commute)
          qed
        qed
      qed
      moreover have "scan_wide_slots ss lstart s n = scan_wide_slots ss lstart (s + 2) n"
        by (simp only: unf lt False if_True if_False)
      moreover note "1.IH"[OF lt False]
      ultimately show ?thesis by (simp only:)
    qed
  qed
qed

lemma scan_wide_slots_Some:
  "scan_wide_slots ss lstart s n = Some k \<Longrightarrow>
     s \<le> k \<and> k < n \<and> lstart \<ge> ss ! k \<and> lstart \<ge> ss ! (k + 1) \<and> even (k - s)"
proof (induction ss lstart s n rule: scan_wide_slots.induct)
  case (1 ss lstart s n)
  note unf = scan_wide_slots.simps[of ss lstart s n]
  from "1.prems" have lt: "s < n" by (auto simp: unf split: if_splits)
  show ?case
  proof (cases "lstart \<ge> ss ! s \<and> lstart \<ge> ss ! (s + 1)")
    case True
    with lt "1.prems" show ?thesis by (simp add: unf)
  next
    case False
    with lt "1.prems" have "scan_wide_slots ss lstart (s + 2) n = Some k" by (auto simp: unf)
    from "1.IH"[OF lt False this] show ?thesis by auto
  qed
qed

lemma no_free_slot_scan:
  "no_free_slot ss False lstart \<longleftrightarrow> scan_slots ss lstart 0 (length ss) = None"
  "no_free_slot ss True lstart \<longleftrightarrow> scan_wide_slots ss lstart 0 (length ss - 1) = None"
proof -
  show "no_free_slot ss False lstart \<longleftrightarrow> scan_slots ss lstart 0 (length ss) = None"
    by (auto simp: no_free_slot_def scan_slots_None list_all_iff)
  have "(\<forall>s. s < length ss - 1 \<longrightarrow> even s \<longrightarrow> \<not> (ss ! s \<le> lstart \<and> ss ! (s + 1) \<le> lstart))
      \<longleftrightarrow> (\<forall>j. 0 + 2 * j < length ss - 1 \<longrightarrow> \<not> (ss ! (0 + 2 * j) \<le> lstart \<and> ss ! (0 + 2 * j + 1) \<le> lstart))"
    (is "?L \<longleftrightarrow> ?R")
  proof
    assume ?L then show ?R by simp
  next
    assume r: ?R
    show ?L
    proof (intro allI impI)
      fix s assume "s < length ss - 1" "even s"
      then obtain j where "s = 2 * j" by (auto elim: evenE)
      with r \<open>s < length ss - 1\<close> show "\<not> (ss ! s \<le> lstart \<and> ss ! (s + 1) \<le> lstart)" by auto
    qed
  qed
  then show "no_free_slot ss True lstart \<longleftrightarrow> scan_wide_slots ss lstart 0 (length ss - 1) = None"
    unfolding scan_wide_slots_None by (auto simp: no_free_slot_def list_all_iff)
qed

lemma set_ivl_simps:
  "mem (set_ivl st i f) = list_update (mem st) i (f (mem st ! i))"
  "active (set_ivl st i f) = active st" "inactive (set_ivl st i f) = inactive st"
  "pending (set_ivl st i f) = pending st" "spill_slots (set_ivl st i f) = spill_slots st"
  "spill_info (set_ivl st i f) = spill_info st" "ctx (set_ivl st i f) = ctx st"
  "intervals (set_ivl st i f) = intervals st"
  by (simp_all add: set_ivl_def)

lemma assign_slot_simps:
  "active (assign_slot st ivl ldr s) = active st" "inactive (assign_slot st ivl ldr s) = inactive st"
  "pending (assign_slot st ivl ldr s) = pending st" "ctx (assign_slot st ivl ldr s) = ctx st"
  "intervals (assign_slot st ivl ldr s) = intervals st"
  "mem (assign_slot st ivl ldr s)
     = list_update (list_update (mem st) ldr ((mem st ! ldr) \<lparr> slot := int s \<rparr>)) ivl
         ((list_update (mem st) ldr ((mem st ! ldr) \<lparr> slot := int s \<rparr>) ! ivl) \<lparr> slot := int s \<rparr>)"
  by (simp_all add: assign_slot_def Let_def set_ivl_simps)

lemma assign_slot_mem:
  assumes "ivl < length (mem st)" "ldr < length (mem st)"
  shows "slot (mem (assign_slot st ivl ldr s) ! ivl) = int s"
    and "slot (mem (assign_slot st ivl ldr s) ! ldr) = int s"
    and "reg (mem (assign_slot st ivl ldr s) ! ivl) = reg (mem st ! ivl)"
    and "length (mem (assign_slot st ivl ldr s)) = length (mem st)"
  using assms by (auto simp: assign_slot_simps nth_list_update)

lemma assignSpill_Inr:
  assumes "assignSpill st ivl = Inr st'"
  shows "ivl < length (mem st) \<and> \<not> fixed (mem st ! ivl)
         \<and> (\<exists>ldr. parent (mem st ! ivl) = Some ldr \<and> ldr < length (mem st)
                \<and> slot (mem st' ! ivl) = slot (mem st' ! ldr))
         \<and> slot (mem st' ! ivl) \<noteq> kInvalidSpillSlot
         \<and> reg (mem st' ! ivl) = reg (mem st ! ivl)
         \<and> active st' = active st \<and> inactive st' = inactive st \<and> pending st' = pending st
         \<and> length (mem st') = length (mem st)"
proof -
  from assms have v: "ivl < length (mem st)" "\<not> fixed (mem st ! ivl)"
    by (auto simp: assignSpill_def split: if_splits)
  from assms v obtain ldr where l: "parent (mem st ! ivl) = Some ldr" "ldr < length (mem st)"
    by (auto simp: assignSpill_def split: if_splits option.splits)
  show ?thesis
  proof (cases "slot (mem st ! ldr) \<noteq> kInvalidSpillSlot")
    case True
    with assms v l have "st' = set_ivl st ivl (\<lambda>x. x \<lparr> slot := slot (mem st ! ldr) \<rparr>)"
      by (simp add: assignSpill_def)
    with v l True show ?thesis by (auto simp: set_ivl_simps nth_list_update)
  next
    case False
    with assms v l obtain s where "st' = assign_slot st ivl ldr s"
      by (auto simp: assignSpill_def split: if_splits option.splits)
    with v l show ?thesis
      using assign_slot_mem[OF v(1) l(2), of s]
      by (auto simp: assign_slot_simps kInvalidSpillSlot_def)
  qed
qed

lemmas ex_st_defs = ex_st_def ex_full_def ex_nouse_def ex_root_def make_child_def make_Interval_def
  set_ivl_def unassigned_def fixed_def start_def end'_def kInvalidSpillSlot_def

text \<open>
  C9.  \<open>assignReg\<close> on an interval that is not fixed and has no uses never assigns the
  offered register: it sets \<open>reg\<close> to \<open>InvalidReg\<close>, leaves \<open>active\<close> as it is, and,
  unless the interval is a constant, runs \<open>assignSpill\<close>, after which the interval
  carries its leader's slot.
\<close>

theorem assignReg_no_uses:
  "ivl < length (mem st) \<and> \<not> fixed (mem st ! ivl) \<and> uses (mem st ! ivl) = [] \<longrightarrow>
     assignReg st ivl r
       = (if is_constant (mem st ! ivl) then Inr (unassigned st ivl)
          else assignSpill (unassigned st ivl) ivl)
     \<and> (\<forall>st'. assignReg st ivl r = Inr st' \<longrightarrow>
           reg (mem st' ! ivl) = InvalidReg \<and> active st' = active st
           \<and> (\<not> is_constant (mem st ! ivl) \<longrightarrow>
                 slot (mem st' ! ivl) \<noteq> kInvalidSpillSlot
                 \<and> (\<exists>ldr. parent (mem st ! ivl) = Some ldr
                        \<and> slot (mem st' ! ivl) = slot (mem st' ! ldr)))
           \<and> (is_constant (mem st ! ivl) \<longrightarrow> slot (mem st' ! ivl) = slot (mem st ! ivl)))"
proof (intro impI conjI allI)
  assume H: "ivl < length (mem st) \<and> \<not> fixed (mem st ! ivl) \<and> uses (mem st ! ivl) = []"
  then show eq: "assignReg st ivl r
       = (if is_constant (mem st ! ivl) then Inr (unassigned st ivl)
          else assignSpill (unassigned st ivl) ivl)"
    by (simp add: assignReg_def unassigned_def Let_def set_ivl_simps)
  fix st' assume r: "assignReg st ivl r = Inr st'"
  have u: "mem (unassigned st ivl) ! ivl = (mem st ! ivl) \<lparr> reg := InvalidReg \<rparr>"
    "active (unassigned st ivl) = active st"
    using H by (simp_all add: unassigned_def set_ivl_simps)
  show "reg (mem st' ! ivl) = InvalidReg"
  proof (cases "is_constant (mem st ! ivl)")
    case True with r eq u show ?thesis by simp
  next
    case False
    with r eq have "assignSpill (unassigned st ivl) ivl = Inr st'" by simp
    from assignSpill_Inr[OF this] u show ?thesis by simp
  qed
  show "active st' = active st"
  proof (cases "is_constant (mem st ! ivl)")
    case True with r eq u show ?thesis by auto
  next
    case False
    with r eq have "assignSpill (unassigned st ivl) ivl = Inr st'" by simp
    from assignSpill_Inr[OF this] u show ?thesis by simp
  qed
  {
    assume nc: "\<not> is_constant (mem st ! ivl)"
    with r eq have a: "assignSpill (unassigned st ivl) ivl = Inr st'" by simp
    from assignSpill_Inr[OF a] show "slot (mem st' ! ivl) \<noteq> kInvalidSpillSlot" by simp
    from assignSpill_Inr[OF a] u
    show "\<exists>ldr. parent (mem st ! ivl) = Some ldr \<and> slot (mem st' ! ivl) = slot (mem st' ! ldr)"
      by auto
  }
  {
    assume "is_constant (mem st ! ivl)"
    with r eq u show "slot (mem st' ! ivl) = slot (mem st ! ivl)" by auto
  }
qed

theorem assignReg_no_uses_witness:
  "1 < length (mem ex_st) \<and> \<not> fixed (mem ex_st ! 1) \<and> uses (mem ex_st ! 1) = []
   \<and> \<not> is_constant (mem ex_st ! 1)
   \<and> assignReg ex_st 1 (GpReg 3) = Inr ex_spilled
   \<and> reg (mem ex_spilled ! 1) = InvalidReg \<and> active ex_spilled = active ex_st
   \<and> slot (mem ex_spilled ! 1) \<noteq> kInvalidSpillSlot
   \<and> slot (mem ex_spilled ! 1) = slot (mem ex_spilled ! 0)"
proof -
  have a: "1 < length (mem ex_st) \<and> \<not> fixed (mem ex_st ! 1) \<and> uses (mem ex_st ! 1) = []"
    and nc: "\<not> is_constant (mem ex_st ! 1)"
    by (simp_all add: ex_st_defs)
  have e: "assignReg ex_st 1 (GpReg 3) = Inr ex_spilled"
    by (simp add: assignReg_def assignSpill_def assign_slot_def Let_def scan_slots.simps
        ex_spilled_def ex_st_defs u32_def)
  have p: "parent (mem ex_st ! 1) = Some 0" by (simp add: ex_st_defs)
  from assignReg_no_uses[of 1 ex_st "GpReg 3"] a nc e p show ?thesis by auto
qed

text \<open>
  C5.  Both capacity failures leave the allocator through a punt.  \<open>assignSpill\<close> on a
  chain without a slot returns the punt \<open>LinearScan_TooManySpills\<close> exactly when no
  slot's watermark permits reuse.  \<open>spill\<close> returns the punt \<open>RegSpill\<close> when the
  interval has a register use and \<open>nearestSplitBefore\<close> of it is at or before the
  interval's start.  \<open>spill\<close> and \<open>assignReg\<close> return what their call of
  \<open>assignSpill\<close> returns, so its punt is their result: nothing handles it.
\<close>

theorem capacity_failures_punt:
  "(ivl < length (mem st) \<and> \<not> fixed (mem st ! ivl) \<and> parent (mem st ! ivl) = Some ldr
      \<and> ldr < length (mem st) \<and> slot (mem st ! ldr) = kInvalidSpillSlot
      \<and> 0 < length (spill_slots st)
    \<longrightarrow> (assignSpill st ivl = Inl (Punt LinearScan_TooManySpills)
         \<longleftrightarrow> no_free_slot (spill_slots st) (wide (mem st ! ivl)) (start (mem st ! ldr))))
   \<and> (ivl < length (mem st) \<and> firstUse (mem st ! ivl) \<le> end' (mem st ! ivl)
      \<and> nearestSplitBefore (ctx st) (firstUse (mem st ! ivl)) = Some spos
      \<and> spos \<le> start (mem st ! ivl)
    \<longrightarrow> spill st ivl = Inl (Punt RegSpill))
   \<and> (ivl < length (mem st) \<and> end' (mem st ! ivl) < firstUse (mem st ! ivl)
      \<and> \<not> is_constant (mem st ! ivl)
    \<longrightarrow> spill st ivl = assignSpill (unassigned st ivl) ivl)
   \<and> (ivl < length (mem st) \<and> firstUse (mem st ! ivl) \<le> end' (mem st ! ivl)
      \<and> nearestSplitBefore (ctx st) (firstUse (mem st ! ivl)) = Some spos
      \<and> start (mem st ! ivl) < spos
      \<and> split (mem st) ivl spos False = Some (m, c) \<and> \<not> is_constant (m ! ivl)
    \<longrightarrow> spill st ivl
          = assignSpill (unassigned (st \<lparr> mem := m, pending := pending st @ [c] \<rparr>) ivl) ivl)
   \<and> (ivl < length (mem st) \<and> \<not> fixed (mem st ! ivl) \<and> uses (mem st ! ivl) = []
      \<and> \<not> is_constant (mem st ! ivl)
    \<longrightarrow> assignReg st ivl r = assignSpill (unassigned st ivl) ivl)"
proof (intro conjI impI)
  assume H: "ivl < length (mem st) \<and> \<not> fixed (mem st ! ivl) \<and> parent (mem st ! ivl) = Some ldr
      \<and> ldr < length (mem st) \<and> slot (mem st ! ldr) = kInvalidSpillSlot
      \<and> 0 < length (spill_slots st)"
  show "assignSpill st ivl = Inl (Punt LinearScan_TooManySpills)
         \<longleftrightarrow> no_free_slot (spill_slots st) (wide (mem st ! ivl)) (start (mem st ! ldr))"
  proof (cases "wide (mem st ! ivl)")
    case False
    with H show ?thesis
      by (auto simp: assignSpill_def no_free_slot_scan(1) split: option.splits)
  next
    case True
    with H show ?thesis
      by (auto simp: assignSpill_def no_free_slot_scan(2) split: option.splits)
  qed
next
  assume "ivl < length (mem st) \<and> firstUse (mem st ! ivl) \<le> end' (mem st ! ivl)
      \<and> nearestSplitBefore (ctx st) (firstUse (mem st ! ivl)) = Some spos
      \<and> spos \<le> start (mem st ! ivl)"
  then show "spill st ivl = Inl (Punt RegSpill)" by (simp add: spill_def Let_def)
next
  assume "ivl < length (mem st) \<and> end' (mem st ! ivl) < firstUse (mem st ! ivl)
      \<and> \<not> is_constant (mem st ! ivl)"
  then show "spill st ivl = assignSpill (unassigned st ivl) ivl"
    by (simp add: spill_def Let_def unassigned_def set_ivl_simps)
next
  assume H: "ivl < length (mem st) \<and> firstUse (mem st ! ivl) \<le> end' (mem st ! ivl)
      \<and> nearestSplitBefore (ctx st) (firstUse (mem st ! ivl)) = Some spos
      \<and> start (mem st ! ivl) < spos
      \<and> split (mem st) ivl spos False = Some (m, c) \<and> \<not> is_constant (m ! ivl)"
  have "is_constant (list_update m ivl ((m ! ivl) \<lparr> reg := InvalidReg \<rparr>) ! ivl) = is_constant (m ! ivl)"
    by (cases "ivl < length m") (simp_all add: list_update_beyond)
  with H show "spill st ivl
          = assignSpill (unassigned (st \<lparr> mem := m, pending := pending st @ [c] \<rparr>) ivl) ivl"
    by (simp add: spill_def Let_def unassigned_def set_ivl_simps)
next
  assume "ivl < length (mem st) \<and> \<not> fixed (mem st ! ivl) \<and> uses (mem st ! ivl) = []
      \<and> \<not> is_constant (mem st ! ivl)"
  then show "assignReg st ivl r = assignSpill (unassigned st ivl) ivl"
    by (simp add: assignReg_def Let_def unassigned_def set_ivl_simps)
qed

theorem capacity_failures_punt_witness:
  "no_free_slot (spill_slots ex_full) (wide (mem ex_full ! 1)) (start (mem ex_full ! 0))
   \<and> assignSpill ex_full 1 = Inl (Punt LinearScan_TooManySpills)
   \<and> nearestSplitBefore (ctx ex_st) (firstUse (mem ex_st ! 0)) = Some 1
   \<and> start (mem ex_st ! 0) = 2
   \<and> spill ex_st 0 = Inl (Punt RegSpill)
   \<and> spill ex_full 1 = Inl (Punt LinearScan_TooManySpills)
   \<and> assignReg ex_full 1 (GpReg 3) = Inl (Punt LinearScan_TooManySpills)"
proof -
  have a: "1 < length (mem ex_full) \<and> \<not> fixed (mem ex_full ! 1) \<and> parent (mem ex_full ! 1) = Some 0
      \<and> 0 < length (mem ex_full) \<and> slot (mem ex_full ! 0) = kInvalidSpillSlot
      \<and> 0 < length (spill_slots ex_full)"
    by (simp add: ex_st_defs)
  have n: "no_free_slot (spill_slots ex_full) (wide (mem ex_full ! 1)) (start (mem ex_full ! 0))"
    by (simp add: no_free_slot_def ex_st_defs kMaxPos_def)
  have b: "0 < length (mem ex_st) \<and> firstUse (mem ex_st ! 0) \<le> end' (mem ex_st ! 0)
      \<and> nearestSplitBefore (ctx ex_st) (firstUse (mem ex_st ! 0)) = Some 1
      \<and> 1 \<le> start (mem ex_st ! 0)"
    by (simp add: ex_st_defs firstUse_def nearestSplitBefore_def blockFor_def blockFor_loop.simps
        ex_ctx_def u32_def)
  have s2: "start (mem ex_st ! 0) = 2" by (simp add: ex_st_defs)
  have c: "1 < length (mem ex_full) \<and> end' (mem ex_full ! 1) < firstUse (mem ex_full ! 1)
      \<and> \<not> is_constant (mem ex_full ! 1)"
    by (simp add: ex_st_defs firstUse_def kMaxPos_def)
  have d: "1 < length (mem ex_full) \<and> \<not> fixed (mem ex_full ! 1) \<and> uses (mem ex_full ! 1) = []
      \<and> \<not> is_constant (mem ex_full ! 1)"
    by (simp add: ex_st_defs)
  have u: "assignSpill (unassigned ex_full 1) 1 = Inl (Punt LinearScan_TooManySpills)"
    by (simp add: assignSpill_def ex_st_defs scan_slots.simps kMaxPos_def)
  note t = capacity_failures_punt[where ivl = 1 and st = ex_full and ldr = 0 and r = "GpReg 3"]
  note t0 = capacity_failures_punt[where ivl = 0 and st = ex_st and spos = 1]
  from t t0 a n b s2 c d u show ?thesis by simp
qed

subsection \<open>Spill stores recorded by resolveSplits\<close>

















subsection \<open>Well-formedness of the intervals that buildIntervals returns\<close>












































end
